theory Spec2Isabelle
  imports Complex_Main "HOL-Library.Word"
begin

section \<open>IEEE 754 binary64\<close>

text \<open>
  The notebook computes with NumPy \<^verbatim>\<open>float64\<close> arrays and Python floats, both IEEE 754
  binary64 with round-to-nearest, ties-to-even. A finite value is kept in canonical form:
  \<open>Finite s m e\<close> stands for \<open>(-1)^s * m * 2^e\<close> with \<open>0 \<le> m < 2^53\<close>,
  \<open>-1074 \<le> e \<le> 971\<close> and \<open>2^52 \<le> m\<close> unless \<open>e = -1074\<close>, so that two values are
  equal exactly when their bit patterns are (all NaNs are taken as one).
\<close>

datatype double = Finite bool int int | Infinity bool | NaN

function bitlen :: "int \<Rightarrow> int" where
  "bitlen n = (if n \<le> 0 then 0 else 1 + bitlen (n div 2))"
  by pat_completeness auto
termination
  by (relation "measure nat") auto

declare bitlen.simps [simp del]

text \<open>\<open>floor_log2 p q\<close> is the integer \<open>k\<close> with \<open>2^k \<le> p/q < 2^(k+1)\<close>, for positive
  \<open>p\<close> and \<open>q\<close>.\<close>

definition floor_log2 :: "int \<Rightarrow> int \<Rightarrow> int" where
  "floor_log2 p q =
     (let lg = bitlen p - bitlen q
      in if q * 2 ^ nat lg \<le> p * 2 ^ nat (- lg) then lg else lg - 1)"

text \<open>The integer nearest to \<open>n/d\<close>, the even one at a tie.\<close>

definition round_even :: "int \<Rightarrow> int \<Rightarrow> int" where
  "round_even n d =
     (let m = n div d; r = n mod d
      in if 2 * r < d then m
         else if d < 2 * r then m + 1
         else if even m then m else m + 1)"

text \<open>\<open>round_nearest s p q e\<close> rounds the exact value \<open>(-1)^s * (p/q) * 2^e\<close>
  (\<open>0 \<le> p\<close>, \<open>0 < q\<close>) to binary64: 53 significant bits, gradual underflow below
  \<open>2^-1022\<close>, infinity above the largest finite value.\<close>

definition round_nearest :: "bool \<Rightarrow> int \<Rightarrow> int \<Rightarrow> int \<Rightarrow> double" where
  "round_nearest s p q e =
     (if p = 0 then Finite s 0 (- 1074)
      else
        let t = max (floor_log2 p q + e - 52) (- 1074);
            m = round_even (p * 2 ^ nat (e - t)) (q * 2 ^ nat (t - e));
            (m', t') = (if m = 2 ^ 53 then (2 ^ 52, t + 1) else (m, t))
        in if 971 < t' then Infinity s else Finite s m' t')"

text \<open>Conversion of a Python \<^verbatim>\<open>int\<close> or a NumPy \<^verbatim>\<open>int64\<close> to \<^verbatim>\<open>float64\<close>.\<close>

definition of_int_d :: "int \<Rightarrow> double" where
  "of_int_d i = round_nearest (i < 0) \<bar>i\<bar> 1 0"

fun fmul :: "double \<Rightarrow> double \<Rightarrow> double" where
  "fmul NaN _ = NaN"
| "fmul _ NaN = NaN"
| "fmul (Infinity s) (Infinity r) = Infinity (s \<noteq> r)"
| "fmul (Infinity s) (Finite r m e) = (if m = 0 then NaN else Infinity (s \<noteq> r))"
| "fmul (Finite s m e) (Infinity r) = (if m = 0 then NaN else Infinity (s \<noteq> r))"
| "fmul (Finite s m e) (Finite r n f) = round_nearest (s \<noteq> r) (m * n) 1 (e + f)"

text \<open>NumPy's \<^verbatim>\<open>float64\<close> division does not raise: a zero divisor gives an infinity or
  NaN (with a warning).\<close>

fun fdiv :: "double \<Rightarrow> double \<Rightarrow> double" where
  "fdiv NaN _ = NaN"
| "fdiv _ NaN = NaN"
| "fdiv (Infinity s) (Infinity r) = NaN"
| "fdiv (Infinity s) (Finite r m e) = Infinity (s \<noteq> r)"
| "fdiv (Finite s m e) (Infinity r) = Finite (s \<noteq> r) 0 (- 1074)"
| "fdiv (Finite s m e) (Finite r n f) =
     (if n = 0 then (if m = 0 then NaN else Infinity (s \<noteq> r))
      else round_nearest (s \<noteq> r) m n (e - f))"

definition apply_sign :: "bool \<Rightarrow> int \<Rightarrow> int" where
  "apply_sign s m = (if s then - m else m)"

fun fadd :: "double \<Rightarrow> double \<Rightarrow> double" where
  "fadd NaN _ = NaN"
| "fadd _ NaN = NaN"
| "fadd (Infinity s) (Infinity r) = (if s = r then Infinity s else NaN)"
| "fadd (Infinity s) (Finite r m e) = Infinity s"
| "fadd (Finite s m e) (Infinity r) = Infinity r"
| "fadd (Finite s m e) (Finite r n f) =
     (let g = min e f;
          v = apply_sign s (m * 2 ^ nat (e - g)) + apply_sign r (n * 2 ^ nat (f - g))
      in if v = 0 then Finite (s \<and> r) 0 (- 1074)
         else round_nearest (v < 0) \<bar>v\<bar> 1 g)"

fun fneg :: "double \<Rightarrow> double" where
  "fneg (Finite s m e) = Finite (\<not> s) m e"
| "fneg (Infinity s) = Infinity (\<not> s)"
| "fneg NaN = NaN"

definition fsub :: "double \<Rightarrow> double \<Rightarrow> double" where
  "fsub x y = fadd x (fneg y)"

fun fabs :: "double \<Rightarrow> double" where
  "fabs (Finite s m e) = Finite False m e"
| "fabs (Infinity s) = Infinity False"
| "fabs NaN = NaN"

text \<open>The exact rational value of a finite double.\<close>

fun valof :: "double \<Rightarrow> rat option" where
  "valof (Finite s m e) =
     Some (if 0 \<le> e then of_int (apply_sign s m * 2 ^ nat e)
           else of_int (apply_sign s m) / of_int (2 ^ nat (- e)))"
| "valof (Infinity s) = None"
| "valof NaN = None"

text \<open>The 64 bits of a double: sign, 11 bits of biased exponent, 52 bits of fraction.\<close>

fun bits_of :: "double \<Rightarrow> 64 word" where
  "bits_of (Finite s m e) =
     (if s then 2 ^ 63 else 0) +
     (if m < 2 ^ 52 then word_of_int m
      else word_of_int ((e + 1075) * 2 ^ 52 + (m - 2 ^ 52)))"
| "bits_of (Infinity s) = (if s then 2 ^ 63 else 0) + 0x7FF0000000000000"
| "bits_of NaN = 0x7FF8000000000000"

text \<open>The canonical form of the finite doubles.\<close>

definition canonical :: "double \<Rightarrow> bool" where
  "canonical x =
     (case x of
        Finite s m e \<Rightarrow>
          0 \<le> m \<and> m < 2 ^ 53 \<and> - 1074 \<le> e \<and> e \<le> 971 \<and> (2 ^ 52 \<le> m \<or> e = - 1074)
      | _ \<Rightarrow> True)"

section \<open>The Python and NumPy operations the notebook uses\<close>

datatype error = ValueError | IndexError

text \<open>
  The arithmetic of the array elements. The notebook runs on \<open>binary64\<close>; \<open>exact\<close> is the
  arithmetic of the rationals, in which the notebook's text calls the two recursions
  mathematically exact.
\<close>

record 'a arith =
  lit :: "int \<Rightarrow> 'a"
  mul :: "'a \<Rightarrow> 'a \<Rightarrow> 'a"
  sub :: "'a \<Rightarrow> 'a \<Rightarrow> 'a"
  quot :: "'a \<Rightarrow> 'a \<Rightarrow> 'a"

definition binary64 :: "double arith" where
  "binary64 = \<lparr>lit = of_int_d, mul = fmul, sub = fsub, quot = fdiv\<rparr>"

definition exact :: "rat arith" where
  "exact = \<lparr>lit = of_int, mul = (\<lambda>x y. x * y), sub = (\<lambda>x y. x - y), quot = (\<lambda>x y. x / y)\<rparr>"

text \<open>\<^verbatim>\<open>np.zeros(k)\<close>: a negative dimension raises \<^verbatim>\<open>ValueError\<close>.\<close>

definition np_zeros :: "'a arith \<Rightarrow> int \<Rightarrow> error + 'a list" where
  "np_zeros A k = (if k < 0 then Inl ValueError else Inr (replicate (nat k) (lit A 0)))"

text \<open>Indexing a one-dimensional array: a negative index counts from the end, an index
  out of range raises \<^verbatim>\<open>IndexError\<close>.\<close>

definition np_index :: "'a list \<Rightarrow> int \<Rightarrow> error + nat" where
  "np_index a i =
     (let len = int (length a); k = (if i < 0 then i + len else i)
      in if 0 \<le> k \<and> k < len then Inr (nat k) else Inl IndexError)"

definition getitem :: "'a list \<Rightarrow> int \<Rightarrow> error + 'a" where
  "getitem a i = (case np_index a i of Inl e \<Rightarrow> Inl e | Inr k \<Rightarrow> Inr (a ! k))"

definition setitem :: "'a list \<Rightarrow> int \<Rightarrow> 'a \<Rightarrow> error + 'a list" where
  "setitem a i v = (case np_index a i of Inl e \<Rightarrow> Inl e | Inr k \<Rightarrow> Inr (a[k := v]))"

text \<open>\<^verbatim>\<open>range(a, b)\<close> and \<^verbatim>\<open>np.arange(k)\<close>.\<close>

definition range_py :: "int \<Rightarrow> int \<Rightarrow> int list" where
  "range_py a b = [a..b - 1]"

definition arange :: "int \<Rightarrow> int list" where
  "arange k = [0..k - 1]"

text \<open>A \<^verbatim>\<open>for\<close> loop over a list of indices; an exception in the body ends the loop.\<close>

fun for_each :: "(int \<Rightarrow> 's \<Rightarrow> error + 's) \<Rightarrow> int list \<Rightarrow> 's \<Rightarrow> error + 's" where
  "for_each body [] s = Inr s"
| "for_each body (j # js) s =
     (case body j s of Inl e \<Rightarrow> Inl e | Inr s' \<Rightarrow> for_each body js s')"

text \<open>An elementwise binary operation on two one-dimensional arrays, with NumPy's
  broadcasting of a length-one operand; other unequal lengths raise \<^verbatim>\<open>ValueError\<close>.\<close>

definition broadcast2 :: "('a \<Rightarrow> 'b \<Rightarrow> 'c) \<Rightarrow> 'a list \<Rightarrow> 'b list \<Rightarrow> error + 'c list" where
  "broadcast2 f a b =
     (if length a = length b then Inr (map2 f a b)
      else if length a = 1 then Inr (map (f (hd a)) b)
      else if length b = 1 then Inr (map (\<lambda>x. f x (hd b)) a)
      else Inl ValueError)"

text \<open>\<^verbatim>\<open>3**j\<close> on a NumPy \<^verbatim>\<open>int64\<close>: the product wraps modulo \<open>2^64\<close>.\<close>

definition int64_pow3 :: "int \<Rightarrow> 64 word" where
  "int64_pow3 j = 3 ^ nat j"

section \<open>The two recursions\<close>

text \<open>
  \<^verbatim>\<open>
  def prec(n) :
      p = np.zeros(n+1)
      p[0] = 1
      p[1] = 1./3
      for j in range(2,n+1) :
          p[j] = 5./6*p[j-1] - 1./6*p[j-2]
      return p
  \<close>
\<close>

definition prec_body :: "'a arith \<Rightarrow> int \<Rightarrow> 'a list \<Rightarrow> error + 'a list" where
  "prec_body A j p =
     (case getitem p (j - 1) of Inl e \<Rightarrow> Inl e | Inr a \<Rightarrow>
      case getitem p (j - 2) of Inl e \<Rightarrow> Inl e | Inr b \<Rightarrow>
      setitem p j (sub A (mul A (quot A (lit A 5) (lit A 6)) a)
                         (mul A (quot A (lit A 1) (lit A 6)) b)))"

definition prec_on :: "'a arith \<Rightarrow> int \<Rightarrow> error + 'a list" where
  "prec_on A n =
     (case np_zeros A (n + 1) of Inl e \<Rightarrow> Inl e | Inr p0 \<Rightarrow>
      case setitem p0 0 (lit A 1) of Inl e \<Rightarrow> Inl e | Inr p1 \<Rightarrow>
      case setitem p1 1 (quot A (lit A 1) (lit A 3)) of Inl e \<Rightarrow> Inl e | Inr p2 \<Rightarrow>
      for_each (prec_body A) (range_py 2 (n + 1)) p2)"

definition prec :: "int \<Rightarrow> error + double list" where
  "prec n = prec_on binary64 n"

text \<open>
  \<^verbatim>\<open>
  def qrec(n) :
      q = np.zeros(n+1)
      q[0] = 1
      q[1] = 1./3
      for j in range(2,n+1) :
          q[j] = 5./3*q[j-1] - 4./9*q[j-2]
      return q
  \<close>
\<close>

definition qrec_body :: "'a arith \<Rightarrow> int \<Rightarrow> 'a list \<Rightarrow> error + 'a list" where
  "qrec_body A j q =
     (case getitem q (j - 1) of Inl e \<Rightarrow> Inl e | Inr a \<Rightarrow>
      case getitem q (j - 2) of Inl e \<Rightarrow> Inl e | Inr b \<Rightarrow>
      setitem q j (sub A (mul A (quot A (lit A 5) (lit A 3)) a)
                         (mul A (quot A (lit A 4) (lit A 9)) b)))"

definition qrec_on :: "'a arith \<Rightarrow> int \<Rightarrow> error + 'a list" where
  "qrec_on A n =
     (case np_zeros A (n + 1) of Inl e \<Rightarrow> Inl e | Inr q0 \<Rightarrow>
      case setitem q0 0 (lit A 1) of Inl e \<Rightarrow> Inl e | Inr q1 \<Rightarrow>
      case setitem q1 1 (quot A (lit A 1) (lit A 3)) of Inl e \<Rightarrow> Inl e | Inr q2 \<Rightarrow>
      for_each (qrec_body A) (range_py 2 (n + 1)) q2)"

definition qrec :: "int \<Rightarrow> error + double list" where
  "qrec n = qrec_on binary64 n"

text \<open>The same two programs over the rationals.\<close>

definition prec_exact :: "int \<Rightarrow> error + rat list" where
  "prec_exact n = prec_on exact n"

definition qrec_exact :: "int \<Rightarrow> error + rat list" where
  "qrec_exact n = qrec_on exact n"

section \<open>The fractional errors\<close>

text \<open>
  \<^verbatim>\<open>
  N=40
  p = prec(N)
  q = qrec(N)
  n = np.arange(N+1)
  expected = 1/3.**n
  perr = np.abs(1-p/expected)
  qerr = np.abs(1-q/expected)
  \<close>
  The cell is modelled with \<open>N\<close> and the sequence as parameters.

  The power \<^verbatim>\<open>3.**n\<close> is a parameter too. NumPy converts the integers of \<open>n\<close> to
  \<^verbatim>\<open>float64\<close> and calls the C library's \<^verbatim>\<open>pow\<close>, which is not part of the source and is
  not correctly rounded: where \<open>3^j\<close> is not a double (from \<open>j = 34\<close> on) it may return
  either neighbour. So \<open>pw j\<close> stands for the double that \<^verbatim>\<open>3.**j\<close> evaluates to, and
  nothing is assumed of it but what a statement says.
\<close>

definition expected :: "(int \<Rightarrow> double) \<Rightarrow> int \<Rightarrow> double list" where
  "expected pw N = map (\<lambda>j. fdiv (of_int_d 1) (pw j)) (arange (N + 1))"

definition frac_err :: "(int \<Rightarrow> double) \<Rightarrow> double list \<Rightarrow> int \<Rightarrow> error + double list" where
  "frac_err pw s N =
     (case broadcast2 fdiv s (expected pw N) of Inl e \<Rightarrow> Inl e
      | Inr r \<Rightarrow> Inr (map (\<lambda>x. fabs (fsub (of_int_d 1) x)) r))"

definition perr :: "(int \<Rightarrow> double) \<Rightarrow> int \<Rightarrow> error + double list" where
  "perr pw N = (case prec N of Inl e \<Rightarrow> Inl e | Inr p \<Rightarrow> frac_err pw p N)"

definition qerr :: "(int \<Rightarrow> double) \<Rightarrow> int \<Rightarrow> error + double list" where
  "qerr pw N = (case qrec N of Inl e \<Rightarrow> Inl e | Inr q \<Rightarrow> frac_err pw q N)"

text \<open>The aside of the notebook, \<^verbatim>\<open>1/3**n\<close>: the power is taken on the \<^verbatim>\<open>int64\<close> array
  \<open>n\<close> and only the quotient is a float.\<close>

definition expected_int64 :: "int \<Rightarrow> double list" where
  "expected_int64 N = map (\<lambda>j. fdiv (of_int_d 1) (of_int_d (sint (int64_pow3 j)))) (arange (N + 1))"

section \<open>Correct rounding\<close>

text \<open>
  The arithmetic above is IEEE 754 arithmetic: every operation returns a canonical double
  and, when the result is finite, one that no canonical double is nearer to the exact
  result than; at a tie it is the one with the even significand; and the result is an
  infinity exactly from \<open>2^1024 - 2^970\<close> on.
\<close>

lemma pow2_split: "(2::rat) powi k = 2 ^ nat k / 2 ^ nat (- k)"
  by (cases "0 \<le> k") (simp_all add: power_int_def power_one_over inverse_eq_divide)

lemma pow2_pos: "0 < (2::rat) powi k"
  by (simp add: pow2_split)

lemma bitlen_nonneg: "0 \<le> bitlen n"
  by (induction n rule: bitlen.induct) (subst bitlen.simps, simp)

lemma bitlen_bounds:
  "0 < n \<Longrightarrow> 2 ^ nat (bitlen n - 1) \<le> n \<and> n < 2 ^ nat (bitlen n)"
proof (induction n rule: bitlen.induct)
  case (1 n)
  have bl: "bitlen n = 1 + bitlen (n div 2)"
    using 1(2) by (subst bitlen.simps) simp
  show ?case
  proof (cases "n div 2 = 0")
    case True
    then have "n = 1" using 1(2) by presburger
    then show ?thesis using bl True by (simp add: bitlen.simps)
  next
    case False
    then have pos: "0 < n div 2" using 1(2) by presburger
    then have ih: "2 ^ nat (bitlen (n div 2) - 1) \<le> n div 2" "n div 2 < 2 ^ nat (bitlen (n div 2))"
      using 1 by simp_all
    have b1: "1 \<le> bitlen (n div 2)"
      using pos by (subst bitlen.simps) (simp add: bitlen_nonneg)
    have e1: "nat (bitlen n - 1) = Suc (nat (bitlen (n div 2) - 1))"
      using bl b1 by simp
    have e2: "nat (bitlen n) = Suc (nat (bitlen (n div 2)))"
      using bl b1 by simp
    have "2 * (n div 2) \<le> n" "n \<le> 2 * (n div 2) + 1" by presburger+
    then show ?thesis
      using ih unfolding e1 e2 by simp
  qed
qed

lemma bitlen_pos: "0 < n \<Longrightarrow> 1 \<le> bitlen n"
  by (subst bitlen.simps) (simp add: bitlen_nonneg)

lemma bitlen_bounds_rat:
  assumes "0 < n"
  shows "2 powi (bitlen n - 1) \<le> (of_int n :: rat)" and "(of_int n :: rat) < 2 powi bitlen n"
proof -
  have b: "1 \<le> bitlen n" using assms by (rule bitlen_pos)
  have "(of_int (2 ^ nat (bitlen n - 1)) :: rat) \<le> of_int n"
    using bitlen_bounds [OF assms] by (simp only: of_int_le_iff)
  then show "2 powi (bitlen n - 1) \<le> (of_int n :: rat)"
    using b by (simp add: power_int_def)
  have "(of_int n :: rat) < of_int (2 ^ nat (bitlen n))"
    using bitlen_bounds [OF assms] by (simp only: of_int_less_iff)
  then show "(of_int n :: rat) < 2 powi bitlen n"
    using b by (simp add: power_int_def)
qed


lemma pow2_add: "(2::rat) powi (m + n) = 2 powi m * 2 powi n"
  by (simp add: power_int_add)

text \<open>The test of \<open>floor_log2\<close>, read over the rationals.\<close>

lemma floor_log2_test:
  assumes "0 < q"
  shows "q * 2 ^ nat lg \<le> p * 2 ^ nat (- lg) \<longleftrightarrow> (of_int q :: rat) * 2 powi lg \<le> of_int p"
proof -
  have "q * 2 ^ nat lg \<le> p * 2 ^ nat (- lg) \<longleftrightarrow>
      (of_int (q * 2 ^ nat lg) :: rat) \<le> of_int (p * 2 ^ nat (- lg))"
    by (simp only: of_int_le_iff)
  also have "\<dots> \<longleftrightarrow> (of_int q :: rat) * 2 ^ nat lg \<le> of_int p * 2 ^ nat (- lg)"
    by simp
  also have "\<dots> \<longleftrightarrow> (of_int q :: rat) * 2 powi lg \<le> of_int p"
    by (simp add: pow2_split field_simps)
  finally show ?thesis .
qed

lemma floor_log2_bounds:
  assumes "0 < p" and "0 < q"
  shows "(of_int q :: rat) * 2 powi floor_log2 p q \<le> of_int p"
    and "(of_int p :: rat) < of_int q * 2 powi (floor_log2 p q + 1)"
proof -
  define lg where "lg = bitlen p - bitlen q"
  define P Q :: rat where "P = of_int p" and "Q = of_int q"
  have P: "2 powi (bitlen p - 1) \<le> P" "P < 2 powi bitlen p"
    unfolding P_def using bitlen_bounds_rat [OF assms(1)] by simp_all
  have Q: "2 powi (bitlen q - 1) \<le> Q" "Q < 2 powi bitlen q"
    unfolding Q_def using bitlen_bounds_rat [OF assms(2)] by simp_all
  have "P < 2 powi (bitlen q - 1) * 2 powi (lg + 1)"
    using P(2) by (simp add: lg_def flip: pow2_add)
  also have "\<dots> \<le> Q * 2 powi (lg + 1)"
    using Q(1) pow2_pos [of "lg + 1"] by simp
  finally have up: "P < Q * 2 powi (lg + 1)" .
  have "Q * 2 powi (lg - 1) < 2 powi bitlen q * 2 powi (lg - 1)"
    using Q(2) pow2_pos [of "lg - 1"] by simp
  also have "\<dots> = 2 powi (bitlen p - 1)"
    by (simp add: lg_def flip: pow2_add)
  finally have lo: "Q * 2 powi (lg - 1) < P" using P(1) by simp
  have test: "q * 2 ^ nat lg \<le> p * 2 ^ nat (- lg) \<longleftrightarrow> Q * 2 powi lg \<le> P"
    unfolding P_def Q_def by (rule floor_log2_test [OF assms(2)])
  show "(of_int q :: rat) * 2 powi floor_log2 p q \<le> of_int p"
    using test lo by (auto simp: floor_log2_def Let_def lg_def [symmetric] P_def Q_def)
  show "(of_int p :: rat) < of_int q * 2 powi (floor_log2 p q + 1)"
    using test up by (auto simp: floor_log2_def Let_def lg_def [symmetric] P_def Q_def)
qed


lemma round_even_nearest:
  assumes "0 < d"
  shows "\<bar>2 * (round_even n d * d - n)\<bar> \<le> d"
proof -
  define m r where "m = n div d" and "r = n mod d"
  have n: "n = m * d + r" by (simp add: m_def r_def)
  have r: "0 \<le> r" "r < d" using assms by (simp_all add: r_def)
  have "round_even n d = m \<and> 2 * r \<le> d \<or> round_even n d = m + 1 \<and> d \<le> 2 * r"
    by (auto simp: round_even_def Let_def m_def r_def)
  then show ?thesis
    using r by (auto simp: n algebra_simps)
qed

lemma round_even_half:
  assumes "0 < d"
  shows "\<bar>of_int (round_even n d) - (of_int n / of_int d :: rat)\<bar> \<le> 1 / 2"
proof -
  have d: "0 < (of_int d :: rat)" using assms by simp
  have "(of_int \<bar>2 * (round_even n d * d - n)\<bar> :: rat) \<le> of_int d"
    using round_even_nearest [OF assms] by (simp only: of_int_le_iff)
  then have "\<bar>2 * (of_int (round_even n d) * of_int d - (of_int n :: rat))\<bar> \<le> of_int d"
    by simp
  then have "\<bar>of_int (round_even n d) * of_int d - (of_int n :: rat)\<bar> * 2 \<le> of_int d"
    by (simp only: abs_mult)
  moreover have "of_int (round_even n d) - (of_int n / of_int d :: rat) =
      (of_int (round_even n d) * of_int d - of_int n) / of_int d"
    using d by (simp add: field_simps)
  ultimately show ?thesis
    using d by (simp add: abs_divide field_simps)
qed

text \<open>An integer within one half of \<open>x\<close> is at least as near to \<open>x\<close> as any integer.\<close>

lemma nearest_integer:
  fixes x :: rat
  assumes "\<bar>of_int m - x\<bar> \<le> 1 / 2"
  shows "\<bar>of_int m - x\<bar> \<le> \<bar>of_int c - x\<bar>"
proof (cases "c = m")
  case True
  then show ?thesis by simp
next
  case False
  then have "1 \<le> \<bar>c - m\<bar>" by linarith
  then have "(1::rat) \<le> of_int \<bar>c - m\<bar>" by (simp only: of_int_1_le_iff)
  then have "(1::rat) \<le> \<bar>of_int c - of_int m\<bar>" by simp
  then show ?thesis using assms by linarith
qed

text \<open>The integer that \<open>round_nearest\<close> rounds: with \<open>t\<close> the exponent of the last place,
  it is the quotient \<open>(p/q) * 2^(e - t)\<close>.\<close>

lemma scaled_quotient:
  assumes "0 < q"
  shows "(of_int (p * 2 ^ nat (e - t)) / of_int (q * 2 ^ nat (t - e)) :: rat) =
    of_int p / of_int q * 2 powi (e - t)"
  by (simp add: pow2_split)


lemma pow2_mono: "m \<le> n \<Longrightarrow> (2::rat) powi m \<le> 2 powi n"
  by (rule power_int_increasing) simp_all

lemma round_nearest_unfold:
  assumes "p \<noteq> 0"
  shows "round_nearest s p q e =
    (let t = max (floor_log2 p q + e - 52) (- 1074);
         m = round_even (p * 2 ^ nat (e - t)) (q * 2 ^ nat (t - e))
     in if m = 2 ^ 53 then (if 970 < t then Infinity s else Finite s (2 ^ 52) (t + 1))
        else if 971 < t then Infinity s else Finite s m t)"
  using assms by (auto simp add: round_nearest_def Let_def max_def)

lemma round_nearest_core:
  fixes p q e :: int
  defines "t \<equiv> max (floor_log2 p q + e - 52) (- 1074)"
  defines "m \<equiv> round_even (p * 2 ^ nat (e - t)) (q * 2 ^ nat (t - e))"
  defines "X \<equiv> (of_int p / of_int q * 2 powi (e - t) :: rat)"
  assumes p: "0 < p" and q: "0 < q"
  shows "\<bar>of_int m - X\<bar> \<le> 1 / 2" and "0 < X" and "0 \<le> m" and "m \<le> 2 ^ 53"
    and "t = - 1074 \<or> 2 ^ 52 \<le> m" and "t = - 1074 \<or> 2 ^ 52 \<le> X"
proof -
  define k where "k = floor_log2 p q"
  have Q: "0 < (of_int q :: rat)" and P: "0 < (of_int p :: rat)" using p q by simp_all
  have "0 < q * 2 ^ nat (t - e)" using q by simp
  then show half: "\<bar>of_int m - X\<bar> \<le> 1 / 2"
    unfolding m_def X_def scaled_quotient [OF q, symmetric] by (rule round_even_half)
  show Xpos: "0 < X" unfolding X_def using P Q pow2_pos [of "e - t"] by simp
  have "2 powi k \<le> (of_int p / of_int q :: rat)"
    and "(of_int p / of_int q :: rat) < 2 powi (k + 1)"
    using floor_log2_bounds [OF p q] Q by (simp_all add: k_def field_simps)
  then have "2 powi k * 2 powi (e - t) \<le> X" and "X < 2 powi (k + 1) * 2 powi (e - t)"
    unfolding X_def using pow2_pos [of "e - t"]
    by (simp_all only: mult_le_cancel_right_pos mult_less_cancel_right_pos)
  then have lo: "2 powi (k + e - t) \<le> X" and hi: "X < 2 powi (k + e - t + 1)"
    by (simp_all flip: pow2_add add: algebra_simps)
  have "k + e - t + 1 \<le> 53" unfolding t_def k_def by simp
  then have "(2::rat) powi (k + e - t + 1) \<le> 2 powi 53" by (rule pow2_mono)
  then have "X < 2 ^ 53" using hi by simp
  then have "(of_int m :: rat) < 2 ^ 53 + 1" using half by linarith
  then have "(of_int m :: rat) < of_int (2 ^ 53 + 1)" by simp
  then have "m < 2 ^ 53 + 1" by (simp only: of_int_less_iff)
  then show "m \<le> 2 ^ 53" by simp
  have "- 1 < (of_int m :: rat)" using half Xpos by linarith
  then have "(of_int (- 1) :: rat) < of_int m" by simp
  then have "- 1 < m" by (simp only: of_int_less_iff)
  then show "0 \<le> m" by simp
  show X52: "t = - 1074 \<or> 2 ^ 52 \<le> X"
  proof (cases "t = - 1074")
    case False
    then have "k + e - t = 52" unfolding t_def k_def by simp
    then show ?thesis using lo by simp
  qed simp
  show "t = - 1074 \<or> 2 ^ 52 \<le> m"
  proof (cases "t = - 1074")
    case False
    then have "2 ^ 52 \<le> X" using X52 by simp
    then have "2 ^ 52 - 1 < (of_int m :: rat)" using half by linarith
    then have "(of_int (2 ^ 52 - 1) :: rat) < of_int m" by simp
    then have "2 ^ 52 - 1 < m" by (simp only: of_int_less_iff)
    then show ?thesis by simp
  qed simp
qed

lemma round_nearest_canonical:
  assumes "0 \<le> p" and "0 < q"
  shows "canonical (round_nearest s p q e)"
proof (cases "p = 0")
  case True
  then show ?thesis by (simp add: round_nearest_def canonical_def)
next
  case False
  then have p: "0 < p" using assms by simp
  show ?thesis
    using round_nearest_core(3,4,5) [OF p assms(2), of e]
    by (auto simp: round_nearest_unfold [OF False] Let_def canonical_def max_def)
qed


lemma valof_Finite:
  "valof (Finite s m e) = Some (of_int (apply_sign s m) * 2 powi e)"
  by (simp add: power_int_def power_one_over inverse_eq_divide)

lemma nearest_on_grid:
  fixes X u :: rat
  assumes half: "\<bar>of_int m - X\<bar> \<le> 1 / 2" and u: "0 < u"
  shows "u * \<bar>of_int m - X\<bar> \<le> \<bar>of_int c * u - X * u\<bar>"
proof -
  have "\<bar>of_int c * u - X * u\<bar> = u * \<bar>of_int c - X\<bar>"
    using u by (simp add: abs_mult flip: left_diff_distrib)
  then show ?thesis
    using nearest_integer [OF half, of c] u by simp
qed

lemma nearest_below_grid:
  fixes X u w :: rat
  assumes half: "\<bar>of_int m - X\<bar> \<le> 1 / 2" and u: "0 < u"
    and X: "2 ^ 52 \<le> X" and w: "w \<le> 2 ^ 52 * u"
  shows "u * \<bar>of_int m - X\<bar> \<le> \<bar>w - X * u\<bar>"
proof -
  have "u * \<bar>of_int m - X\<bar> \<le> \<bar>of_int (2 ^ 52) * u - X * u\<bar>"
    by (rule nearest_on_grid [OF half u])
  also have "\<dots> = X * u - 2 ^ 52 * u"
    using X u by (simp add: mult_right_mono)
  also have "\<dots> \<le> \<bar>w - X * u\<bar>"
    using w by linarith
  finally show ?thesis .
qed

text \<open>The value of a canonical double, against the grid of the multiples of \<open>2^t\<close>: it is
  on the grid, or it is below \<open>2^52 * 2^t\<close> and \<open>t\<close> is above the least exponent.\<close>

lemma canonical_grid:
  assumes "canonical (Finite r n f)"
  shows "(\<exists>c. (of_int (apply_sign r' n) * 2 powi f :: rat) = of_int c * 2 powi t) \<or>
    (- 1074 < t \<and> (of_int (apply_sign r' n) * 2 powi f :: rat) \<le> 2 ^ 52 * 2 powi t)"
proof (cases "t \<le> f")
  case True
  have "(2::rat) powi f = 2 powi (f - t) * 2 powi t" by (simp flip: pow2_add)
  also have "(2::rat) powi (f - t) = of_int (2 ^ nat (f - t))"
    using True by (simp add: power_int_def)
  finally have "(of_int (apply_sign r' n) * 2 powi f :: rat) =
      of_int (apply_sign r' n * 2 ^ nat (f - t)) * 2 powi t"
    by simp
  then show ?thesis by blast
next
  case False
  have n: "0 \<le> n" "n < 2 ^ 53" and f: "- 1074 \<le> f"
    using assms by (simp_all add: canonical_def)
  have "(of_int (apply_sign r' n) :: rat) \<le> of_int n"
    using n by (simp add: apply_sign_def)
  also have "\<dots> \<le> 2 ^ 53" using n(2) by (simp add: of_int_le_numeral_power_cancel_iff)
  finally have "(of_int (apply_sign r' n) * 2 powi f :: rat) \<le> 2 ^ 53 * 2 powi f"
    using pow2_pos [of f] by simp
  also have "\<dots> \<le> 2 ^ 53 * 2 powi (t - 1)"
    using False pow2_mono [of f "t - 1"] by simp
  also have "\<dots> = 2 ^ 52 * 2 powi t"
    by (simp add: power_int_diff)
  finally show ?thesis using False f by simp
qed


lemma round_nearest_value:
  fixes p q e :: int
  defines "t \<equiv> max (floor_log2 p q + e - 52) (- 1074)"
  defines "m \<equiv> round_even (p * 2 ^ nat (e - t)) (q * 2 ^ nat (t - e))"
  assumes "p \<noteq> 0" and "valof (round_nearest s p q e) = Some v"
  shows "v = of_int (apply_sign s m) * 2 powi t"
proof (cases "m = 2 ^ 53")
  case True
  then have "round_nearest s p q e = Finite s (2 ^ 52) (t + 1)"
    using assms(3,4) unfolding round_nearest_unfold [OF assms(3)] Let_def t_def [symmetric]
      m_def [symmetric]
    by (simp split: if_splits)
  then have "v = of_int (apply_sign s (2 ^ 52)) * 2 powi (t + 1)"
    using assms(4) by (simp only: valof_Finite option.inject)
  then show ?thesis using True by (simp add: apply_sign_def power_int_add)
next
  case False
  then have "round_nearest s p q e = Finite s m t"
    using assms(3,4) unfolding round_nearest_unfold [OF assms(3)] Let_def t_def [symmetric]
      m_def [symmetric]
    by (simp split: if_splits)
  then show ?thesis
    using assms(4) by (simp only: valof_Finite option.inject)
qed

lemma apply_sign_rat:
  "(of_int (apply_sign s m) :: rat) = (if s then - 1 else 1) * of_int m"
  by (simp add: apply_sign_def)

lemma round_nearest_nearest:
  assumes p: "0 \<le> p" and q: "0 < q"
    and v: "valof (round_nearest s p q e) = Some v"
    and y: "canonical y" "valof y = Some w"
  shows "\<bar>v - of_int (apply_sign s p) / of_int q * 2 powi e\<bar> \<le>
         \<bar>w - of_int (apply_sign s p) / of_int q * 2 powi e\<bar>"
proof (cases "p = 0")
  case True
  then have "round_nearest s p q e = Finite s 0 (- 1074)"
    by (simp add: round_nearest_def)
  then have "v = of_int (apply_sign s 0) * 2 powi (- 1074)"
    using v by (simp only: valof_Finite option.inject)
  moreover have "apply_sign s 0 = 0" by (simp add: apply_sign_def)
  ultimately have "v = 0" by (simp only: of_int_0 mult_zero_left)
  then show ?thesis using True by (simp add: apply_sign_def)
next
  case False
  then have pos: "0 < p" using p by simp
  define t where "t = max (floor_log2 p q + e - 52) (- 1074)"
  define m where "m = round_even (p * 2 ^ nat (e - t)) (q * 2 ^ nat (t - e))"
  define X :: rat where "X = of_int p / of_int q * 2 powi (e - t)"
  define u :: rat where "u = 2 powi t"
  define \<sigma> :: rat where "\<sigma> = (if s then - 1 else 1)"
  have half: "\<bar>of_int m - X\<bar> \<le> 1 / 2" and X52: "t = - 1074 \<or> 2 ^ 52 \<le> X"
    unfolding m_def X_def t_def by (rule round_nearest_core [OF pos q])+
  have u: "0 < u" unfolding u_def by (rule pow2_pos)
  have \<sigma>: "\<sigma> * \<sigma> = 1" "\<bar>\<sigma>\<bar> = 1" by (simp_all add: \<sigma>_def)
  have "X * u = of_int p / of_int q * 2 powi e"
    unfolding X_def u_def by (simp flip: pow2_add)
  then have x: "of_int (apply_sign s p) / of_int q * 2 powi e = \<sigma> * (X * u)"
    by (simp add: apply_sign_rat \<sigma>_def)
  have "v = of_int (apply_sign s m) * 2 powi t"
    unfolding m_def t_def by (rule round_nearest_value [OF False v])
  then have v': "v = \<sigma> * (of_int m * u)"
    by (simp add: apply_sign_rat \<sigma>_def u_def)
  obtain r n f where yf: "y = Finite r n f"
    using y(2) by (cases y) simp_all
  have w: "w = of_int (apply_sign r n) * 2 powi f"
    using y(2) unfolding yf by (simp only: valof_Finite option.inject)
  have sw: "\<sigma> * w = of_int (apply_sign (r \<noteq> s) n) * 2 powi f"
    unfolding w by (simp add: apply_sign_def \<sigma>_def)
  have "u * \<bar>of_int m - X\<bar> \<le> \<bar>\<sigma> * w - X * u\<bar>"
    using canonical_grid [OF y(1) [unfolded yf], of "r \<noteq> s" t]
  proof
    assume "\<exists>c. (of_int (apply_sign (r \<noteq> s) n) * 2 powi f :: rat) = of_int c * 2 powi t"
    then obtain c where "\<sigma> * w = of_int c * u" unfolding sw u_def by blast
    then show ?thesis using nearest_on_grid [OF half u, of c] by simp
  next
    assume "- 1074 < t \<and> (of_int (apply_sign (r \<noteq> s) n) * 2 powi f :: rat) \<le> 2 ^ 52 * 2 powi t"
    then have "2 ^ 52 \<le> X" and "\<sigma> * w \<le> 2 ^ 52 * u"
      using X52 unfolding sw u_def by simp_all
    then show ?thesis by (rule nearest_below_grid [OF half u])
  qed
  moreover have "\<bar>v - \<sigma> * (X * u)\<bar> = u * \<bar>of_int m - X\<bar>"
  proof -
    have "v - \<sigma> * (X * u) = \<sigma> * (u * (of_int m - X))"
      unfolding v' by (simp add: algebra_simps)
    then show ?thesis using u \<sigma>(2) by (simp add: abs_mult)
  qed
  moreover have "\<bar>w - \<sigma> * (X * u)\<bar> = \<bar>\<sigma> * w - X * u\<bar>"
  proof -
    have "\<sigma> * (w - \<sigma> * (X * u)) = \<sigma> * w - (\<sigma> * \<sigma>) * (X * u)"
      by (simp add: algebra_simps)
    then have "\<sigma> * w - X * u = \<sigma> * (w - \<sigma> * (X * u))"
      using \<sigma>(1) by simp
    then show ?thesis using \<sigma>(2) by (simp add: abs_mult)
  qed
  ultimately show ?thesis unfolding x by simp
qed


lemma round_even_tie:
  assumes "0 < d" and "\<bar>2 * (round_even n d * d - n)\<bar> = d"
  shows "even (round_even n d)"
proof -
  define m r where "m = n div d" and "r = n mod d"
  have n: "n = m * d + r" by (simp add: m_def r_def)
  have r: "0 \<le> r" "r < d" using assms by (simp_all add: r_def)
  consider "2 * r < d" | "d < 2 * r" | "2 * r = d" by linarith
  then show ?thesis
  proof cases
    case 1
    then have "round_even n d = m" by (simp add: round_even_def Let_def m_def r_def)
    then show ?thesis using assms(2) 1 r by (simp add: n algebra_simps)
  next
    case 2
    then have "round_even n d = m + 1" by (simp add: round_even_def Let_def m_def r_def)
    then show ?thesis using assms(2) 2 r by (simp add: n algebra_simps)
  next
    case 3
    then show ?thesis by (auto simp: round_even_def Let_def m_def r_def)
  qed
qed

lemma valof_nonzero_divisor:
  assumes "n \<noteq> 0"
  shows "(of_int (apply_sign s m) * 2 powi e) / (of_int (apply_sign r n) * 2 powi f) =
    (of_int (apply_sign (s \<noteq> r) m) / of_int n * 2 powi (e - f) :: rat)"
  using assms by (simp add: apply_sign_def power_int_diff)

lemma fmul_nearest:
  assumes "canonical x" and "canonical y"
    and "valof x = Some a" and "valof y = Some b" and "valof (fmul x y) = Some v"
    and "canonical z" and "valof z = Some w"
  shows "\<bar>v - a * b\<bar> \<le> \<bar>w - a * b\<bar>"
proof -
  obtain s m e where x: "x = Finite s m e" using assms(3) by (cases x) simp_all
  obtain r n f where y: "y = Finite r n f" using assms(4) by (cases y) simp_all
  have mn: "0 \<le> m * n" using assms(1,2) by (simp add: x y canonical_def)
  have a: "a = of_int (apply_sign s m) * 2 powi e" and b: "b = of_int (apply_sign r n) * 2 powi f"
    using assms(3,4) unfolding x y by (simp_all only: valof_Finite option.inject)
  have "a * b = of_int (apply_sign (s \<noteq> r) (m * n)) / of_int 1 * 2 powi (e + f)"
    unfolding a b by (simp add: apply_sign_def power_int_add)
  moreover have "valof (round_nearest (s \<noteq> r) (m * n) 1 (e + f)) = Some v"
    using assms(5) by (simp add: x y)
  ultimately show ?thesis
    using round_nearest_nearest [OF mn _ _ assms(6,7), of 1 "s \<noteq> r" "e + f" v] by simp
qed

lemma fdiv_nearest:
  assumes "canonical x" and "canonical y"
    and "valof x = Some a" and "valof y = Some b" and "b \<noteq> 0"
    and "valof (fdiv x y) = Some v"
    and "canonical z" and "valof z = Some w"
  shows "\<bar>v - a / b\<bar> \<le> \<bar>w - a / b\<bar>"
proof -
  obtain s m e where x: "x = Finite s m e" using assms(3) by (cases x) simp_all
  obtain r n f where y: "y = Finite r n f" using assms(4) by (cases y) simp_all
  have a: "a = of_int (apply_sign s m) * 2 powi e" and b: "b = of_int (apply_sign r n) * 2 powi f"
    using assms(3,4) unfolding x y by (simp_all only: valof_Finite option.inject)
  have n0: "n \<noteq> 0" using assms(5) unfolding b by (cases r) (auto simp: apply_sign_def)
  then have n: "0 < n" and m: "0 \<le> m" using assms(1,2) by (simp_all add: x y canonical_def)
  have "a / b = of_int (apply_sign (s \<noteq> r) m) / of_int n * 2 powi (e - f)"
    unfolding a b by (rule valof_nonzero_divisor [OF n0])
  moreover have "valof (round_nearest (s \<noteq> r) m n (e - f)) = Some v"
    using assms(6) n0 by (simp add: x y)
  ultimately show ?thesis
    using round_nearest_nearest [OF m n _ assms(7,8), of "s \<noteq> r" "e - f" v] by simp
qed


lemma aligned_value:
  assumes "g \<le> e"
  shows "(of_int (apply_sign s (m * 2 ^ nat (e - g))) * 2 powi g :: rat) =
    of_int (apply_sign s m) * 2 powi e"
proof -
  have "(2::rat) powi e = 2 powi (e - g) * 2 powi g" by (simp flip: pow2_add)
  also have "(2::rat) powi (e - g) = 2 ^ nat (e - g)"
    using assms by (simp add: power_int_def)
  finally show ?thesis by (simp add: apply_sign_def)
qed

lemma fadd_nearest:
  assumes "canonical x" and "canonical y"
    and "valof x = Some a" and "valof y = Some b" and "valof (fadd x y) = Some v"
    and "canonical z" and "valof z = Some w"
  shows "\<bar>v - (a + b)\<bar> \<le> \<bar>w - (a + b)\<bar>"
proof -
  obtain s m e where x: "x = Finite s m e" using assms(3) by (cases x) simp_all
  obtain r n f where y: "y = Finite r n f" using assms(4) by (cases y) simp_all
  have a: "a = of_int (apply_sign s m) * 2 powi e" and b: "b = of_int (apply_sign r n) * 2 powi f"
    using assms(3,4) unfolding x y by (simp_all only: valof_Finite option.inject)
  define g where "g = min e f"
  define V where "V = apply_sign s (m * 2 ^ nat (e - g)) + apply_sign r (n * 2 ^ nat (f - g))"
  have "(of_int V * 2 powi g :: rat) =
      of_int (apply_sign s (m * 2 ^ nat (e - g))) * 2 powi g +
      of_int (apply_sign r (n * 2 ^ nat (f - g))) * 2 powi g"
    by (simp add: V_def algebra_simps)
  also have "\<dots> = a + b"
    unfolding a b by (simp only: aligned_value g_def min.cobounded1 min.cobounded2)
  finally have sum: "a + b = of_int V * 2 powi g" by simp
  have run: "fadd x y = (if V = 0 then Finite (s \<and> r) 0 (- 1074)
      else round_nearest (V < 0) \<bar>V\<bar> 1 g)"
    by (simp add: x y Let_def g_def V_def)
  show ?thesis
  proof (cases "V = 0")
    case True
    then have "valof (Finite (s \<and> r) 0 (- 1074)) = Some v"
      using assms(5) run by simp
    then have "v = of_int (apply_sign (s \<and> r) 0) * 2 powi (- 1074)"
      by (simp only: valof_Finite option.inject)
    moreover have "apply_sign (s \<and> r) 0 = 0" by (simp add: apply_sign_def)
    ultimately have "v = 0" by (simp only: of_int_0 mult_zero_left)
    then show ?thesis using True sum by simp
  next
    case False
    then have "valof (round_nearest (V < 0) \<bar>V\<bar> 1 g) = Some v"
      using assms(5) run by simp
    moreover have "of_int (apply_sign (V < 0) \<bar>V\<bar>) / of_int 1 * 2 powi g = a + b"
      unfolding sum by (simp add: apply_sign_def)
    ultimately show ?thesis
      using round_nearest_nearest [OF _ _ _ assms(6,7), of "\<bar>V\<bar>" 1 "V < 0" g v] by simp
  qed
qed

lemma canonical_fneg: "canonical x \<Longrightarrow> canonical (fneg x)"
  by (cases x) (simp_all add: canonical_def)

lemma valof_fneg: "valof x = Some b \<Longrightarrow> valof (fneg x) = Some (- b)"
  by (cases x) (auto simp: apply_sign_def)

lemma fsub_nearest:
  assumes "canonical x" and "canonical y"
    and "valof x = Some a" and "valof y = Some b" and "valof (fsub x y) = Some v"
    and "canonical z" and "valof z = Some w"
  shows "\<bar>v - (a - b)\<bar> \<le> \<bar>w - (a - b)\<bar>"
  using fadd_nearest [OF assms(1) canonical_fneg [OF assms(2)] assms(3)
      valof_fneg [OF assms(4)] _ assms(6,7), of v] assms(5)
  by (simp add: fsub_def)

lemma of_int_d_nearest:
  assumes "valof (of_int_d i) = Some v" and "canonical z" and "valof z = Some w"
  shows "\<bar>v - of_int i\<bar> \<le> \<bar>w - of_int i\<bar>"
proof -
  have "of_int (apply_sign (i < 0) \<bar>i\<bar>) / of_int 1 * 2 powi 0 = (of_int i :: rat)"
    by (simp add: apply_sign_def)
  then show ?thesis
    using round_nearest_nearest [OF _ _ _ assms(2,3), of "\<bar>i\<bar>" 1 "i < 0" 0 v] assms(1)
    by (simp add: of_int_d_def)
qed

text \<open>The operations keep the canonical form.\<close>

lemma canonical_zero: "canonical (Finite s 0 (- 1074))"
  by (simp add: canonical_def)

lemma canonical_special: "canonical (Infinity s)" "canonical NaN"
  by (simp_all add: canonical_def)

lemma canonical_mantissa: "canonical (Finite s m e) \<Longrightarrow> 0 \<le> m"
  by (simp add: canonical_def)

lemma canonical_fmul:
  assumes "canonical x" and "canonical y"
  shows "canonical (fmul x y)"
proof (cases x)
  case x: (Finite s m e)
  show ?thesis
  proof (cases y)
    case y: (Finite r n f)
    have "0 \<le> m * n"
      using assms canonical_mantissa unfolding x y by (intro mult_nonneg_nonneg) blast+
    then show ?thesis by (simp add: x y round_nearest_canonical)
  qed (simp_all add: x canonical_special)
qed (cases y; simp add: canonical_special)+

lemma canonical_fdiv:
  assumes "canonical x" and "canonical y"
  shows "canonical (fdiv x y)"
proof (cases x)
  case x: (Finite s m e)
  show ?thesis
  proof (cases y)
    case y: (Finite r n f)
    have "0 \<le> m" and "0 \<le> n"
      using assms canonical_mantissa unfolding x y by blast+
    then show ?thesis
      by (cases "n = 0") (simp_all add: x y round_nearest_canonical canonical_special)
  qed (simp_all add: x canonical_special canonical_zero)
qed (cases y; simp add: canonical_special)+

lemma canonical_fadd: "canonical (fadd x y)"
proof (cases x)
  case x: (Finite s m e)
  show ?thesis
  proof (cases y)
    case y: (Finite r n f)
    show ?thesis
      by (simp add: x y Let_def round_nearest_canonical canonical_zero)
  qed (simp_all add: x canonical_special)
qed (cases y; simp add: canonical_special)+

lemma canonical_closed:
  assumes "canonical x" and "canonical y"
  shows "canonical (fmul x y)" and "canonical (fdiv x y)" and "canonical (fadd x y)"
    and "canonical (fsub x y)" and "canonical (fabs x)" and "canonical (fneg x)"
    and "canonical (of_int_d i)"
proof -
  show "canonical (fmul x y)" using assms by (rule canonical_fmul)
  show "canonical (fdiv x y)" using assms by (rule canonical_fdiv)
  show "canonical (fadd x y)" by (rule canonical_fadd)
  show "canonical (fsub x y)" unfolding fsub_def by (rule canonical_fadd)
  show "canonical (fabs x)" using assms(1) by (cases x) (simp_all add: canonical_def)
  show "canonical (fneg x)" using assms(1) by (rule canonical_fneg)
  show "canonical (of_int_d i)" unfolding of_int_d_def by (rule round_nearest_canonical) simp_all
qed


lemma round_even_tie_rat:
  assumes "0 < d"
    and "\<bar>of_int (round_even n d) - (of_int n / of_int d :: rat)\<bar> = 1 / 2"
  shows "even (round_even n d)"
proof -
  define m where "m = round_even n d"
  have d: "0 < (of_int d :: rat)" using assms(1) by simp
  have "of_int m - (of_int n / of_int d :: rat) = (of_int m * of_int d - of_int n) / of_int d"
    using d by (simp add: field_simps)
  then have "\<bar>of_int m * of_int d - (of_int n :: rat)\<bar> / of_int d = 1 / 2"
    using assms(2) d by (simp add: m_def abs_divide)
  then have "2 * \<bar>of_int m * of_int d - (of_int n :: rat)\<bar> = of_int d"
    using d by (simp add: field_simps)
  then have "\<bar>2 * (of_int m * of_int d - (of_int n :: rat))\<bar> = of_int d"
    by (simp only: abs_mult)
  then have "(of_int \<bar>2 * (m * d - n)\<bar> :: rat) = of_int d"
    by simp
  then have "\<bar>2 * (m * d - n)\<bar> = d" by (simp only: of_int_eq_iff)
  then show ?thesis
    unfolding m_def by (rule round_even_tie [OF assms(1)])
qed

lemma round_nearest_ties_to_even:
  fixes p q e :: int
  defines "t \<equiv> max (floor_log2 p q + e - 52) (- 1074)"
  assumes p: "0 < p" and q: "0 < q"
    and r: "round_nearest s p q e = Finite s' m' t'"
    and tie: "\<bar>of_int m' * 2 powi t' - (of_int p / of_int q * 2 powi e :: rat)\<bar> = 2 powi t / 2"
  shows "even m'"
proof -
  define m where "m = round_even (p * 2 ^ nat (e - t)) (q * 2 ^ nat (t - e))"
  have p0: "p \<noteq> 0" using p by simp
  show ?thesis
  proof (cases "m = 2 ^ 53")
    case True
    then have "m' = 2 ^ 52"
      using r unfolding round_nearest_unfold [OF p0] Let_def t_def [symmetric] m_def [symmetric]
      by (simp split: if_splits)
    then show ?thesis by simp
  next
    case False
    then have eq: "m' = m" "t' = t"
      using r unfolding round_nearest_unfold [OF p0] Let_def t_def [symmetric] m_def [symmetric]
      by (simp_all split: if_splits)
    define X :: rat where "X = of_int p / of_int q * 2 powi (e - t)"
    have u: "0 < (2::rat) powi t" by (rule pow2_pos)
    have "X * 2 powi t = of_int p / of_int q * 2 powi e"
      unfolding X_def by (simp flip: pow2_add)
    then have "\<bar>of_int m * 2 powi t - X * 2 powi t\<bar> = 2 powi t / 2"
      using tie unfolding eq by simp
    moreover have "of_int m * 2 powi t - X * 2 powi t = (of_int m - X) * 2 powi t"
      by (simp add: algebra_simps)
    ultimately have "\<bar>of_int m - X\<bar> * 2 powi t = 2 powi t / 2"
      using u by (simp add: abs_mult)
    then have "\<bar>of_int m - X\<bar> = 1 / 2" using u by simp
    then have "even m"
      unfolding m_def X_def scaled_quotient [OF q, symmetric]
      using q by (intro round_even_tie_rat) simp_all
    then show ?thesis using eq by simp
  qed
qed


text \<open>Overflow: the result is an infinity exactly when the exact value is at least
  \<open>2^1024 - 2^970\<close>, half a unit in the last place above the largest finite double.\<close>

lemma round_nearest_overflow:
  fixes p q e :: int
  assumes p: "0 < p" and q: "0 < q"
  shows "round_nearest s p q e = Infinity s \<longleftrightarrow>
    (2 ^ 1024 - 2 ^ 970 :: rat) \<le> of_int p / of_int q * 2 powi e"
proof -
  define t where "t = max (floor_log2 p q + e - 52) (- 1074)"
  define m where "m = round_even (p * 2 ^ nat (e - t)) (q * 2 ^ nat (t - e))"
  define X :: rat where "X = of_int p / of_int q * 2 powi (e - t)"
  define u :: rat where "u = 2 powi t"
  have p0: "p \<noteq> 0" using p by simp
  have half: "\<bar>of_int m - X\<bar> \<le> 1 / 2" and m53: "m \<le> 2 ^ 53"
    and X52: "t = - 1074 \<or> 2 ^ 52 \<le> X" and Xpos: "0 < X"
    unfolding m_def X_def t_def by (rule round_nearest_core [OF p q])+
  have u: "0 < u" unfolding u_def by (rule pow2_pos)
  have x: "of_int p / of_int q * 2 powi e = X * u"
    unfolding X_def u_def by (simp flip: pow2_add)
  have run: "round_nearest s p q e = Infinity s \<longleftrightarrow>
      (if m = 2 ^ 53 then 970 < t else 971 < t)"
    unfolding round_nearest_unfold [OF p0] Let_def t_def [symmetric] m_def [symmetric]
    by simp
  have big: "(2::rat) ^ 1024 - 2 ^ 970 = (2 ^ 53 - 1 / 2) * 2 powi 971" by simp
  consider (a) "971 < t" | (b) "t = 971" | (c) "t \<le> 970" by linarith
  then show ?thesis
  proof cases
    case a
    then have "(2::rat) powi 972 \<le> u" unfolding u_def by (intro pow2_mono) simp
    moreover have "2 ^ 52 \<le> X" using X52 a by simp
    ultimately have "2 ^ 52 * 2 powi 972 \<le> X * u"
      by (intro mult_mono) simp_all
    then have "(2 ^ 1024 - 2 ^ 970 :: rat) \<le> X * u" by simp
    then show ?thesis using a run x by simp
  next
    case b
    have u971: "u = 2 powi 971" unfolding u_def b by simp
    show ?thesis
    proof (cases "m = 2 ^ 53")
      case True
      then have "(of_int m :: rat) = 2 ^ 53" by simp
      then have "2 ^ 53 - 1 / 2 \<le> X" using half by linarith
      then have "(2 ^ 53 - 1 / 2) * u \<le> X * u" using u by (simp only: mult_le_cancel_right_pos)
      then show ?thesis using True b run x big u971 by simp
    next
      case False
      then have m: "m \<le> 2 ^ 53 - 1" using m53 by simp
      then have "(of_int m :: rat) \<le> of_int (2 ^ 53 - 1)" by (simp only: of_int_le_iff)
      then have mr: "(of_int m :: rat) \<le> 2 ^ 53 - 1" by simp
      have "X < 2 ^ 53 - 1 / 2"
      proof (rule ccontr)
        assume "\<not> X < 2 ^ 53 - 1 / 2"
        then have tie: "\<bar>of_int m - X\<bar> = 1 / 2" and "(of_int m :: rat) = 2 ^ 53 - 1"
          using half mr by linarith+
        then have "(of_int m :: rat) = of_int (2 ^ 53 - 1)" by simp
        then have "m = 2 ^ 53 - 1" by (simp only: of_int_eq_iff)
        moreover have "0 < q * 2 ^ nat (t - e)" using q by simp
        then have "even m"
          using tie unfolding m_def X_def scaled_quotient [OF q, symmetric]
          by (rule round_even_tie_rat)
        ultimately show False by simp
      qed
      then have "X * u < (2 ^ 53 - 1 / 2) * u" using u by (simp only: mult_less_cancel_right_pos)
      then show ?thesis using False b run x big u971 by simp
    qed
  next
    case c
    then have "u \<le> 2 powi 970" unfolding u_def by (intro pow2_mono)
    moreover have "X \<le> 2 ^ 53 + 1 / 2"
    proof -
      have "(of_int m :: rat) \<le> of_int (2 ^ 53)" using m53 by (simp only: of_int_le_iff)
      then have "(of_int m :: rat) \<le> 2 ^ 53" by simp
      then show ?thesis using half by linarith
    qed
    ultimately have "X * u \<le> (2 ^ 53 + 1 / 2) * 2 powi 970"
      using Xpos u by (intro mult_mono) simp_all
    also have "\<dots> < 2 ^ 1024 - 2 ^ 970" by simp
    finally show ?thesis using c run x by simp
  qed
qed

section \<open>Array accesses and the loop\<close>

lemma np_index_in_range:
  "0 \<le> i \<Longrightarrow> i < int (length a) \<Longrightarrow> np_index a i = Inr (nat i)"
  by (simp add: np_index_def)

lemma getitem_in_range:
  "0 \<le> i \<Longrightarrow> i < int (length a) \<Longrightarrow> getitem a i = Inr (a ! nat i)"
  by (simp add: getitem_def np_index_in_range)

lemma setitem_in_range:
  "0 \<le> i \<Longrightarrow> i < int (length a) \<Longrightarrow> setitem a i v = Inr (a[nat i := v])"
  by (simp add: setitem_def np_index_in_range)

lemma np_zeros_nonneg: "0 \<le> k \<Longrightarrow> np_zeros A k = Inr (replicate (nat k) (lit A 0))"
  by (simp add: np_zeros_def)

lemma prec_body_in_range:
  assumes "2 \<le> j" and "j < int (length p)"
  shows "prec_body A j p =
    Inr (p[nat j := sub A (mul A (quot A (lit A 5) (lit A 6)) (p ! nat (j - 1)))
                          (mul A (quot A (lit A 1) (lit A 6)) (p ! nat (j - 2)))])"
  using assms by (simp add: prec_body_def getitem_in_range setitem_in_range)

lemma qrec_body_in_range:
  assumes "2 \<le> j" and "j < int (length q)"
  shows "qrec_body A j q =
    Inr (q[nat j := sub A (mul A (quot A (lit A 5) (lit A 3)) (q ! nat (j - 1)))
                          (mul A (quot A (lit A 4) (lit A 9)) (q ! nat (j - 2)))])"
  using assms by (simp add: qrec_body_def getitem_in_range setitem_in_range)

text \<open>The invariant of a loop that fills an array from index \<open>i\<close> on, each element from the
  two before it: the loop ends without an exception, the elements below \<open>i\<close> are kept, and
  every element from \<open>i\<close> on satisfies the recurrence.\<close>

lemma for_each_three_term:
  assumes body: "\<And>j p. 2 \<le> j \<Longrightarrow> j < int (length p) \<Longrightarrow>
      body j p = Inr (p[nat j := f (p ! nat (j - 1)) (p ! nat (j - 2))])"
  shows "2 \<le> i \<Longrightarrow> int (length p) = n + 1 \<Longrightarrow>
    \<exists>p'. for_each body [i..n] p = Inr p' \<and> length p' = length p \<and>
      (\<forall>k. k < nat i \<longrightarrow> p' ! k = p ! k) \<and>
      (\<forall>j. i \<le> j \<and> j \<le> n \<longrightarrow> p' ! nat j = f (p' ! nat (j - 1)) (p' ! nat (j - 2)))"
proof (induction "nat (n + 1 - i)" arbitrary: i p)
  case 0
  then have "n < i" by linarith
  then show ?case by auto
next
  case (Suc d)
  then have le: "i \<le> n" and i2: "2 \<le> i" and len: "int (length p) = n + 1"
    by linarith+
  define p1 where "p1 = p[nat i := f (p ! nat (i - 1)) (p ! nat (i - 2))]"
  have step: "body i p = Inr p1"
    unfolding p1_def using body [of i p] i2 le len by simp
  have "d = nat (n + 1 - (i + 1))" using Suc.hyps(2) by linarith
  moreover have "2 \<le> i + 1" using i2 by simp
  moreover have "int (length p1) = n + 1" using len by (simp add: p1_def)
  ultimately obtain p' where run: "for_each body [i + 1..n] p1 = Inr p'"
    and len': "length p' = length p1"
    and keep: "\<forall>k. k < nat (i + 1) \<longrightarrow> p' ! k = p1 ! k"
    and rec: "\<forall>j. i + 1 \<le> j \<and> j \<le> n \<longrightarrow>
        p' ! nat j = f (p' ! nat (j - 1)) (p' ! nat (j - 2))"
    using Suc.hyps(1) [of "i + 1" p1] by blast
  have "for_each body [i..n] p = Inr p'"
    using le step run by (simp add: upto_rec1)
  moreover have "length p' = length p"
    using len' by (simp add: p1_def)
  moreover have old: "\<forall>k. k < nat i \<longrightarrow> p' ! k = p ! k"
  proof (intro allI impI)
    fix k assume "k < nat i"
    then have "p' ! k = p1 ! k" and "k \<noteq> nat i" using keep i2 by auto
    then show "p' ! k = p ! k" by (simp add: p1_def)
  qed
  moreover have "\<forall>j. i \<le> j \<and> j \<le> n \<longrightarrow>
      p' ! nat j = f (p' ! nat (j - 1)) (p' ! nat (j - 2))"
  proof (intro allI impI)
    fix j assume j: "i \<le> j \<and> j \<le> n"
    show "p' ! nat j = f (p' ! nat (j - 1)) (p' ! nat (j - 2))"
    proof (cases "j = i")
      case True
      have "nat i < length p" using i2 le len by linarith
      then have "p1 ! nat i = f (p ! nat (i - 1)) (p ! nat (i - 2))"
        by (simp add: p1_def)
      moreover have "p' ! nat i = p1 ! nat i" using keep i2 by simp
      moreover have "p' ! nat (i - 1) = p ! nat (i - 1)" using old i2 by simp
      moreover have "p' ! nat (i - 2) = p ! nat (i - 2)" using old i2 by simp
      ultimately show ?thesis using True by simp
    next
      case False
      then show ?thesis using rec j by simp
    qed
  qed
  ultimately show ?case by blast
qed

text \<open>The run of the loop on the seeded array, for \<open>n \<ge> 1\<close>.\<close>

lemma seeded_three_term:
  assumes body: "\<And>j p. 2 \<le> j \<Longrightarrow> j < int (length p) \<Longrightarrow>
      body j p = Inr (p[nat j := f (p ! nat (j - 1)) (p ! nat (j - 2))])"
    and n: "1 \<le> n"
  shows "\<exists>p. for_each body (range_py 2 (n + 1)) ((replicate (nat (n + 1)) z)[0 := a, 1 := b]) = Inr p \<and>
      length p = nat (n + 1) \<and> p ! 0 = a \<and> p ! 1 = b \<and>
      (\<forall>j. 2 \<le> j \<and> j \<le> n \<longrightarrow> p ! nat j = f (p ! nat (j - 1)) (p ! nat (j - 2)))"
proof -
  define p2 where "p2 = (replicate (nat (n + 1)) z)[0 := a, 1 := b]"
  have len: "int (length p2) = n + 1" using n by (simp add: p2_def)
  have "p2 ! 0 = a" and "p2 ! 1 = b" using n by (simp_all add: p2_def)
  moreover obtain p where "for_each body [2..n] p2 = Inr p" and "length p = length p2"
    and "\<forall>k. k < nat 2 \<longrightarrow> p ! k = p2 ! k"
    and "\<forall>j. 2 \<le> j \<and> j \<le> n \<longrightarrow> p ! nat j = f (p ! nat (j - 1)) (p ! nat (j - 2))"
    using for_each_three_term [of body f 2 p2 n, OF body _ len] by auto
  ultimately show ?thesis
    using len unfolding p2_def [symmetric] by (auto simp: range_py_def)
qed

section \<open>The generators on any arithmetic\<close>

lemma prec_on_run:
  assumes "1 \<le> n"
  shows "prec_on A n = for_each (prec_body A) (range_py 2 (n + 1))
    ((replicate (nat (n + 1)) (lit A 0))[0 := lit A 1, 1 := quot A (lit A 1) (lit A 3)])"
  using assms by (simp add: prec_on_def np_zeros_nonneg setitem_in_range)

lemma qrec_on_run:
  assumes "1 \<le> n"
  shows "qrec_on A n = for_each (qrec_body A) (range_py 2 (n + 1))
    ((replicate (nat (n + 1)) (lit A 0))[0 := lit A 1, 1 := quot A (lit A 1) (lit A 3)])"
  using assms by (simp add: qrec_on_def np_zeros_nonneg setitem_in_range)

lemma prec_on_spec:
  assumes "1 \<le> n"
  shows "\<exists>p. prec_on A n = Inr p \<and> length p = nat (n + 1) \<and>
      p ! 0 = lit A 1 \<and> p ! 1 = quot A (lit A 1) (lit A 3) \<and>
      (\<forall>j. 2 \<le> j \<and> j \<le> n \<longrightarrow>
         p ! nat j = sub A (mul A (quot A (lit A 5) (lit A 6)) (p ! nat (j - 1)))
                           (mul A (quot A (lit A 1) (lit A 6)) (p ! nat (j - 2))))"
  unfolding prec_on_run [OF assms]
  by (rule seeded_three_term [OF prec_body_in_range assms])

lemma qrec_on_spec:
  assumes "1 \<le> n"
  shows "\<exists>q. qrec_on A n = Inr q \<and> length q = nat (n + 1) \<and>
      q ! 0 = lit A 1 \<and> q ! 1 = quot A (lit A 1) (lit A 3) \<and>
      (\<forall>j. 2 \<le> j \<and> j \<le> n \<longrightarrow>
         q ! nat j = sub A (mul A (quot A (lit A 5) (lit A 3)) (q ! nat (j - 1)))
                           (mul A (quot A (lit A 4) (lit A 9)) (q ! nat (j - 2))))"
  unfolding qrec_on_run [OF assms]
  by (rule seeded_three_term [OF qrec_body_in_range assms])

text \<open>Below \<open>n = 1\<close> no array is returned: the write of the second seed fails on the
  one-element array, the write of the first seed on the empty array, and
  \<^verbatim>\<open>np.zeros\<close> refuses a negative length.\<close>

lemma prec_on_zero: "prec_on A 0 = Inl IndexError"
  by (simp add: prec_on_def np_zeros_def setitem_def np_index_def)

lemma qrec_on_zero: "qrec_on A 0 = Inl IndexError"
  by (simp add: qrec_on_def np_zeros_def setitem_def np_index_def)

lemma prec_on_minus_one: "prec_on A (- 1) = Inl IndexError"
  by (simp add: prec_on_def np_zeros_def setitem_def np_index_def)

lemma qrec_on_minus_one: "qrec_on A (- 1) = Inl IndexError"
  by (simp add: qrec_on_def np_zeros_def setitem_def np_index_def)

lemma prec_on_below_minus_one: "n < - 1 \<Longrightarrow> prec_on A n = Inl ValueError"
  by (simp add: prec_on_def np_zeros_def)

lemma qrec_on_below_minus_one: "n < - 1 \<Longrightarrow> qrec_on A n = Inl ValueError"
  by (simp add: qrec_on_def np_zeros_def)

lemma prec_on_result:
  "prec_on A n = Inl IndexError \<and> (n = 0 \<or> n = - 1) \<or>
   prec_on A n = Inl ValueError \<and> n < - 1 \<or>
   (\<exists>p. prec_on A n = Inr p) \<and> 1 \<le> n"
proof -
  consider "1 \<le> n" | "n = 0" | "n = - 1" | "n < - 1" by linarith
  then show ?thesis
  proof cases
    case 1
    then show ?thesis using prec_on_spec [of n A] by blast
  qed (simp_all add: prec_on_zero prec_on_minus_one prec_on_below_minus_one)
qed

lemma qrec_on_result:
  "qrec_on A n = Inl IndexError \<and> (n = 0 \<or> n = - 1) \<or>
   qrec_on A n = Inl ValueError \<and> n < - 1 \<or>
   (\<exists>q. qrec_on A n = Inr q) \<and> 1 \<le> n"
proof -
  consider "1 \<le> n" | "n = 0" | "n = - 1" | "n < - 1" by linarith
  then show ?thesis
  proof cases
    case 1
    then show ?thesis using qrec_on_spec [of n A] by blast
  qed (simp_all add: qrec_on_zero qrec_on_minus_one qrec_on_below_minus_one)
qed

section \<open>The recursions over the rationals\<close>

text \<open>A sequence with the seeds \<open>1\<close> and \<open>1/3\<close> and a recurrence
  \<open>x\<^sub>j = c x\<^sub>j\<^sub>-\<^sub>1 - d x\<^sub>j\<^sub>-\<^sub>2\<close> with \<open>3 c - 9 d = 1\<close> is the sequence of the powers of \<open>1/3\<close>.\<close>

lemma three_term_closed_form:
  fixes p :: "rat list"
  assumes p0: "p ! 0 = 1" and p1: "p ! 1 = 1 / 3"
    and rec: "\<forall>j. 2 \<le> j \<and> j \<le> n \<longrightarrow> p ! nat j = c * p ! nat (j - 1) - d * p ! nat (j - 2)"
    and cd: "c * 3 - d * 9 = 1"
  shows "k \<le> nat n \<Longrightarrow> p ! k = 1 / 3 ^ k"
proof (induction k rule: less_induct)
  case (less k)
  consider "k = 0" | "k = 1" | "2 \<le> k" by linarith
  then show ?case
  proof cases
    case 1
    then show ?thesis using p0 by simp
  next
    case 2
    then show ?thesis using p1 by simp
  next
    case 3
    then obtain i where k: "k = Suc (Suc i)"
      by (metis One_nat_def Suc_1 Suc_le_D Suc_le_mono)
    have "2 \<le> int k \<and> int k \<le> n" using 3 less.prems by linarith
    then have "p ! nat (int k) = c * p ! nat (int k - 1) - d * p ! nat (int k - 2)"
      using rec by blast
    moreover have "nat (int k - 1) = Suc i" and "nat (int k - 2) = i"
      using k by simp_all
    moreover have "p ! Suc i = 1 / 3 ^ Suc i" and "p ! i = 1 / 3 ^ i"
      using less.IH [of "Suc i"] less.IH [of i] less.prems k by simp_all
    ultimately have "p ! k = c * (1 / 3 ^ Suc i) - d * (1 / 3 ^ i)"
      by simp
    also have "\<dots> = (c * 3 - d * 9) / 3 ^ Suc (Suc i)"
      by (simp add: field_simps)
    finally show ?thesis using cd k by simp
  qed
qed

lemma closed_form_list:
  fixes p :: "rat list"
  assumes "length p = nat (n + 1)" and "1 \<le> n" and "p ! 0 = 1" and "p ! 1 = 1 / 3"
    and "\<forall>j. 2 \<le> j \<and> j \<le> n \<longrightarrow> p ! nat j = c * p ! nat (j - 1) - d * p ! nat (j - 2)"
    and "c * 3 - d * 9 = 1"
  shows "p = map (\<lambda>j. 1 / 3 ^ j) [0..<nat (n + 1)]"
proof (rule nth_equalityI)
  show "length p = length (map (\<lambda>j. 1 / (3::rat) ^ j) [0..<nat (n + 1)])"
    using assms(1) by simp
next
  fix k assume "k < length p"
  then have "k \<le> nat n" using assms(1,2) by linarith
  then have "p ! k = 1 / 3 ^ k"
    by (rule three_term_closed_form [OF assms(3,4,5,6)])
  then show "p ! k = map (\<lambda>j. 1 / 3 ^ j) [0..<nat (n + 1)] ! k"
    using \<open>k < length p\<close> assms(1) by simp
qed

lemma prec_exact_closed:
  assumes "1 \<le> n"
  shows "prec_exact n = Inr (map (\<lambda>j. 1 / 3 ^ j) [0..<nat (n + 1)])"
proof -
  obtain p where run: "prec_on exact n = Inr p" and "length p = nat (n + 1)"
    and "p ! 0 = lit exact 1" and "p ! 1 = quot exact (lit exact 1) (lit exact 3)"
    and "\<forall>j. 2 \<le> j \<and> j \<le> n \<longrightarrow>
         p ! nat j = sub exact (mul exact (quot exact (lit exact 5) (lit exact 6)) (p ! nat (j - 1)))
                           (mul exact (quot exact (lit exact 1) (lit exact 6)) (p ! nat (j - 2)))"
    using prec_on_spec [OF assms, of exact] by blast
  then have "p = map (\<lambda>j. 1 / 3 ^ j) [0..<nat (n + 1)]"
    by (intro closed_form_list [where c = "5 / 6" and d = "1 / 6"] assms)
      (simp_all add: exact_def)
  with run show ?thesis by (simp add: prec_exact_def)
qed

lemma qrec_exact_closed:
  assumes "1 \<le> n"
  shows "qrec_exact n = Inr (map (\<lambda>j. 1 / 3 ^ j) [0..<nat (n + 1)])"
proof -
  obtain q where run: "qrec_on exact n = Inr q" and "length q = nat (n + 1)"
    and "q ! 0 = lit exact 1" and "q ! 1 = quot exact (lit exact 1) (lit exact 3)"
    and "\<forall>j. 2 \<le> j \<and> j \<le> n \<longrightarrow>
         q ! nat j = sub exact (mul exact (quot exact (lit exact 5) (lit exact 3)) (q ! nat (j - 1)))
                           (mul exact (quot exact (lit exact 4) (lit exact 9)) (q ! nat (j - 2)))"
    using qrec_on_spec [OF assms, of exact] by blast
  then have "q = map (\<lambda>j. 1 / 3 ^ j) [0..<nat (n + 1)]"
    by (intro closed_form_list [where c = "5 / 3" and d = "4 / 9"] assms)
      (simp_all add: exact_def)
  with run show ?thesis by (simp add: qrec_exact_def)
qed

lemma exact_runs_agree: "prec_exact n = qrec_exact n"
proof (cases "1 \<le> n")
  case True
  then show ?thesis by (simp add: prec_exact_closed qrec_exact_closed)
next
  case False
  then consider "n = 0" | "n = - 1" | "n < - 1" by linarith
  then show ?thesis
    by cases
      (simp_all add: prec_exact_def qrec_exact_def prec_on_zero qrec_on_zero
        prec_on_minus_one qrec_on_minus_one prec_on_below_minus_one qrec_on_below_minus_one)
qed

section \<open>The error analysis\<close>

lemma expected_length: "length (expected pw N) = nat (N + 1)"
  by (simp add: expected_def arange_def)

lemma expected_nth:
  "j < nat (N + 1) \<Longrightarrow> expected pw N ! j = fdiv (of_int_d 1) (pw (int j))"
  by (simp add: expected_def arange_def)

lemma frac_err_same_length:
  assumes "int (length s) = N + 1"
  shows "frac_err pw s N =
    Inr (map (\<lambda>x. fabs (fsub (of_int_d 1) x)) (map2 fdiv s (expected pw N)))"
proof -
  have "length s = length (expected pw N)"
    using assms by (simp add: expected_length)
  then show ?thesis by (simp add: frac_err_def broadcast2_def)
qed

lemma frac_err_nth:
  assumes "int (length s) = N + 1" and "frac_err pw s N = Inr E" and "j < length s"
  shows "E ! j = fabs (fsub (of_int_d 1) (fdiv (s ! j) (fdiv (of_int_d 1) (pw (int j)))))"
proof -
  have "length (expected pw N) = length s" using assms(1) by (simp add: expected_length)
  moreover have "expected pw N ! j = fdiv (of_int_d 1) (pw (int j))"
    using assms(1,3) by (intro expected_nth) linarith
  moreover have "E = map (\<lambda>x. fabs (fsub (of_int_d 1) x)) (map2 fdiv s (expected pw N))"
    using assms(1,2) by (simp add: frac_err_same_length)
  ultimately show ?thesis
    using assms(3) by simp
qed

lemma frac_err_run:
  assumes "int (length s) = N + 1"
  shows "\<exists>E. frac_err pw s N = Inr E \<and> length E = length s"
  using assms by (simp add: frac_err_same_length expected_length)

text \<open>The error analysis uses the power at the indices of the array only.\<close>

lemma expected_cong:
  assumes "\<And>j. 0 \<le> j \<Longrightarrow> j \<le> N \<Longrightarrow> pw j = pw' j"
  shows "expected pw N = expected pw' N"
  using assms by (simp add: expected_def arange_def)

section \<open>Values computed in binary64\<close>

lemma one_d: "of_int_d 1 = Finite False 4503599627370496 (- 52)"
  by code_simp

lemma third_d: "fdiv (of_int_d 1) (of_int_d 3) = Finite False 6004799503160661 (- 54)"
  by code_simp

lemma seed_bits:
  "bits_of (Finite False 4503599627370496 (- 52)) = 0x3FF0000000000000"
  "bits_of (Finite False 6004799503160661 (- 54)) = 0x3FD5555555555555"
  by simp_all

lemma seed_values:
  "valof (Finite False 4503599627370496 (- 52)) = Some 1"
  "valof (Finite False 6004799503160661 (- 54)) = Some (1 / 3 - 1 / (3 * 2 ^ 54))"
  by (simp_all add: apply_sign_def)

lemma prec_40_last:
  "(case prec 40 of Inl e \<Rightarrow> None | Inr p \<Rightarrow> Some (length p, p ! 40)) =
     Some (41, Finite False 6833281496482506 (- 116))"
  by code_simp

lemma qrec_40_last:
  "(case qrec 40 of Inl e \<Rightarrow> None | Inr q \<Rightarrow> Some (length q, q ! 40)) =
     Some (41, Finite False 6881472597830711 (- 90))"
  by code_simp

lemma prec_40:
  "\<exists>p. prec 40 = Inr p \<and> length p = 41 \<and> p ! 40 = Finite False 6833281496482506 (- 116)"
  using prec_40_last by (cases "prec 40") simp_all

lemma qrec_40:
  "\<exists>q. qrec 40 = Inr q \<and> length q = 41 \<and> q ! 40 = Finite False 6881472597830711 (- 90)"
  using qrec_40_last by (cases "qrec 40") simp_all

lemma expected_40:
  "fdiv (of_int_d 1) (Finite False 5936360087430141 11) = Finite False 6833281440119632 (- 116)"
  by code_simp

lemma err_p_40:
  "fabs (fsub (of_int_d 1) (fdiv (Finite False 6833281496482506 (- 116))
      (Finite False 6833281440119632 (- 116)))) = Finite False 4985784197185536 (- 79)"
  by code_simp

lemma err_q_40:
  "fabs (fsub (of_int_d 1) (fdiv (Finite False 6881472597830711 (- 90))
      (Finite False 6833281440119632 (- 116)))) = Finite False 4535360827789107 (- 26)"
  by code_simp

lemma err_values:
  "valof (Finite False 4985784197185536 (- 79)) = Some (4985784197185536 / 2 ^ 79)"
  "valof (Finite False 4535360827789107 (- 26)) = Some (4535360827789107 / 2 ^ 26)"
  by (simp_all add: apply_sign_def)

lemma perr_40:
  assumes "pw 40 = Finite False 5936360087430141 11"
  shows "\<exists>e. perr pw 40 = Inr e \<and> length e = 41 \<and> e ! 40 = Finite False 4985784197185536 (- 79)"
proof -
  obtain p where p: "prec 40 = Inr p" "length p = 41"
    "p ! 40 = Finite False 6833281496482506 (- 116)"
    using prec_40 by blast
  have len: "int (length p) = 40 + 1" using p(2) by simp
  obtain e where e: "frac_err pw p 40 = Inr e" and "length e = length p"
    using frac_err_run [OF len] by blast
  moreover have "e ! 40 = Finite False 4985784197185536 (- 79)"
  proof -
    have "e ! 40 = fabs (fsub (of_int_d 1) (fdiv (p ! 40) (fdiv (of_int_d 1) (pw 40))))"
      using frac_err_nth [OF len e, of 40] p(2) by simp
    then show ?thesis by (simp only: p(3) assms expected_40 err_p_40)
  qed
  ultimately show ?thesis using p by (simp add: perr_def)
qed

lemma qerr_40:
  assumes "pw 40 = Finite False 5936360087430141 11"
  shows "\<exists>e. qerr pw 40 = Inr e \<and> length e = 41 \<and> e ! 40 = Finite False 4535360827789107 (- 26)"
proof -
  obtain q where q: "qrec 40 = Inr q" "length q = 41"
    "q ! 40 = Finite False 6881472597830711 (- 90)"
    using qrec_40 by blast
  have len: "int (length q) = 40 + 1" using q(2) by simp
  obtain e where e: "frac_err pw q 40 = Inr e" and "length e = length q"
    using frac_err_run [OF len] by blast
  moreover have "e ! 40 = Finite False 4535360827789107 (- 26)"
  proof -
    have "e ! 40 = fabs (fsub (of_int_d 1) (fdiv (q ! 40) (fdiv (of_int_d 1) (pw 40))))"
      using frac_err_nth [OF len e, of 40] q(2) by simp
    then show ?thesis by (simp only: q(3) assms expected_40 err_q_40)
  qed
  ultimately show ?thesis using q by (simp add: qerr_def)
qed

text \<open>The references at the indices 0 and 1 are the two seeds.\<close>

lemma one_over_one: "fdiv (of_int_d 1) (of_int_d 1) = of_int_d 1"
  by code_simp

lemma expected_seeds:
  assumes "1 \<le> n"
  shows "pw 0 = of_int_d 1 \<Longrightarrow> expected pw n ! 0 = of_int_d 1"
    and "pw 1 = of_int_d 3 \<Longrightarrow> expected pw n ! 1 = fdiv (of_int_d 1) (of_int_d 3)"
  using assms expected_nth [of 0 n pw] expected_nth [of 1 n pw]
  by (simp_all add: one_over_one)

section \<open>The integer power of the aside\<close>

lemma expected_int64_nth:
  "j < nat (N + 1) \<Longrightarrow>
     expected_int64 N ! j = fdiv (of_int_d 1) (of_int_d (sint (int64_pow3 (int j))))"
  by (simp add: expected_int64_def arange_def)

lemma int64_pow3_40: "sint (int64_pow3 40) = - 6289078614652622815"
  by (simp add: int64_pow3_def)

lemma int64_pow3_below_40: "list_all (\<lambda>j. sint (int64_pow3 j) = 3 ^ nat j) [0..39]"
  by code_simp

lemma reference_int64_40:
  "fdiv (of_int_d 1) (of_int_d (- 6289078614652622815)) = Finite True 6604842682599062 (- 115)"
  by code_simp

lemma err_int64_40:
  "fabs (fsub (of_int_d 1) (fdiv (Finite False 6833281496482506 (- 116))
      (Finite True 6604842682599062 (- 115)))) = Finite False 6833281459335519 (- 52)"
  by code_simp

section \<open>The values the notebook records\<close>

text \<open>
  The powers \<open>3^j\<close> are doubles up to \<open>j = 33\<close>. Where the library returns the first
  five of them, the first fractional errors are those the notebook prints for \<^verbatim>\<open>perr\<close> and
  \<^verbatim>\<open>qerr\<close>: \<^verbatim>\<open>0, 0, 2.22044605e-16, 6.66133815e-16, 1.77635684e-15\<close>, that is
  \<open>0, 0, 2^-52, 3 * 2^-52, 2^-49\<close>, and \<^verbatim>\<open>0, 0, 4.44089210e-16, 3.10862447e-15,
  1.35447209e-14\<close>, that is \<open>0, 0, 2^-51, 14 * 2^-52, 61 * 2^-52\<close>.
\<close>

lemma expected_first:
  assumes "pw 0 = of_int_d 1" and "pw 1 = of_int_d 3" and "pw 2 = of_int_d 9"
    and "pw 3 = of_int_d 27" and "pw 4 = of_int_d 81"
  shows "expected pw 4 = expected (\<lambda>j. of_int_d (3 ^ nat j)) 4"
proof (rule expected_cong)
  fix j :: int
  assume "0 \<le> j" and "j \<le> 4"
  then consider "j = 0" | "j = 1" | "j = 2" | "j = 3" | "j = 4" by linarith
  then show "pw j = of_int_d (3 ^ nat j)"
    using assms by cases simp_all
qed

lemma perr_first:
  assumes "pw 0 = of_int_d 1" and "pw 1 = of_int_d 3" and "pw 2 = of_int_d 9"
    and "pw 3 = of_int_d 27" and "pw 4 = of_int_d 81"
  shows "perr pw 4 = Inr [Finite False 0 (- 1074), Finite False 0 (- 1074),
     Finite False (2 ^ 52) (- 104), Finite False (3 * 2 ^ 51) (- 103),
     Finite False (2 ^ 52) (- 101)]"
proof -
  have "perr pw 4 = perr (\<lambda>j. of_int_d (3 ^ nat j)) 4"
    by (simp only: perr_def frac_err_def expected_first [OF assms])
  also have "\<dots> = Inr [Finite False 0 (- 1074), Finite False 0 (- 1074),
     Finite False (2 ^ 52) (- 104), Finite False (3 * 2 ^ 51) (- 103),
     Finite False (2 ^ 52) (- 101)]"
    by code_simp
  finally show ?thesis .
qed

lemma qerr_first:
  assumes "pw 0 = of_int_d 1" and "pw 1 = of_int_d 3" and "pw 2 = of_int_d 9"
    and "pw 3 = of_int_d 27" and "pw 4 = of_int_d 81"
  shows "qerr pw 4 = Inr [Finite False 0 (- 1074), Finite False 0 (- 1074),
     Finite False (2 ^ 52) (- 103), Finite False (7 * 2 ^ 50) (- 101),
     Finite False (61 * 2 ^ 47) (- 99)]"
proof -
  have "qerr pw 4 = qerr (\<lambda>j. of_int_d (3 ^ nat j)) 4"
    by (simp only: qerr_def frac_err_def expected_first [OF assms])
  also have "\<dots> = Inr [Finite False 0 (- 1074), Finite False 0 (- 1074),
     Finite False (2 ^ 52) (- 103), Finite False (7 * 2 ^ 50) (- 101),
     Finite False (61 * 2 ^ 47) (- 99)]"
    by code_simp
  finally show ?thesis .
qed

text \<open>At index 40 the notebook prints \<^verbatim>\<open>8.24828805e-09\<close> and \<^verbatim>\<open>6.75821428e+07\<close>, and
  \<^verbatim>\<open>-1.59005804e-19\<close> for the reference of the aside.\<close>

lemma recorded_at_40:
  "\<bar>4985784197185536 / 2 ^ 79 - 824828805 / 10 ^ 17\<bar> \<le> (1 / (2 * 10 ^ 17) :: rat)"
  "\<bar>4535360827789107 / 2 ^ 26 - 675821428 / 10\<bar> \<le> (1 / (2 * 10) :: rat)"
  "\<bar>6604842682599062 / 2 ^ 115 - 159005804 / 10 ^ 27\<bar> \<le> (1 / (2 * 10 ^ 27) :: rat)"
  by simp_all

text \<open>The power \<^verbatim>\<open>3.**40\<close>, which the notebook prints as \<^verbatim>\<open>1.2157665459056929e+19\<close>: the
  decimal is within half a unit in the last place, \<open>2^10\<close>, of one double only, which is
  also the double nearest to \<open>3^40 = 12157665459056928801\<close>.\<close>

lemma power_40:
  "of_int_d (3 ^ 40) = Finite False 5936360087430141 11"
  "valof (Finite False 5936360087430141 11) = Some 12157665459056928768"
  "\<bar>12157665459056928768 - 12157665459056929 * 10 ^ 3\<bar> < (2 ^ 10 :: rat)"
  by (code_simp, simp_all add: apply_sign_def)

section \<open>The claims\<close>

text \<open>
  Throughout, the arithmetic of the claims is the arithmetic of the code: \<open>1/3\<close> is the
  double \<^verbatim>\<open>1./3\<close>, that is \<open>fdiv (of_int_d 1) (of_int_d 3)\<close>, and a product or a
  difference is the rounded one. Memory is taken as unbounded: \<^verbatim>\<open>np.zeros\<close> gives an array
  of any length. The power \<^verbatim>\<open>3.**j\<close> of the library is the parameter \<open>pw\<close>; a statement that
  needs its value at an index says which value it takes there.
\<close>

text \<open>
  C1. For every integer \<open>n \<ge> 1\<close>, \<^verbatim>\<open>prec(n)\<close> returns a sequence of length \<open>n + 1\<close> whose
  element 0 is \<open>1\<close>, whose element 1 is \<open>1/3\<close>, and whose element \<open>j\<close>, for
  \<open>2 \<le> j \<le> n\<close>, is \<open>(5/6) * seq[j-1] - (1/6) * seq[j-2]\<close>.
\<close>

theorem prec_recurrence:
  assumes "1 \<le> n"
  shows "\<exists>p. prec n = Inr p \<and> length p = nat (n + 1) \<and>
      p ! 0 = of_int_d 1 \<and> p ! 1 = fdiv (of_int_d 1) (of_int_d 3) \<and>
      (\<forall>j. 2 \<le> j \<and> j \<le> n \<longrightarrow>
         p ! nat j = fsub (fmul (fdiv (of_int_d 5) (of_int_d 6)) (p ! nat (j - 1)))
                          (fmul (fdiv (of_int_d 1) (of_int_d 6)) (p ! nat (j - 2))))"
  using prec_on_spec [OF assms, of binary64] by (simp add: prec_def binary64_def)

theorem prec_recurrence_witness:
  "(1::int) \<le> 4 \<and>
   (\<exists>p. prec 4 = Inr p \<and> length p = 5 \<and>
      p ! 0 = of_int_d 1 \<and> p ! 1 = fdiv (of_int_d 1) (of_int_d 3) \<and>
      p ! 4 = fsub (fmul (fdiv (of_int_d 5) (of_int_d 6)) (p ! 3))
                   (fmul (fdiv (of_int_d 1) (of_int_d 6)) (p ! 2)))"
proof -
  have h: "(1::int) \<le> 4" by simp
  obtain p where "prec 4 = Inr p" and "length p = nat (4 + 1)"
    and "p ! 0 = of_int_d 1" and "p ! 1 = fdiv (of_int_d 1) (of_int_d 3)"
    and r: "\<forall>j. 2 \<le> j \<and> j \<le> 4 \<longrightarrow>
         p ! nat j = fsub (fmul (fdiv (of_int_d 5) (of_int_d 6)) (p ! nat (j - 1)))
                          (fmul (fdiv (of_int_d 1) (of_int_d 6)) (p ! nat (j - 2)))"
    using prec_recurrence [OF h] by blast
  moreover have "p ! 4 = fsub (fmul (fdiv (of_int_d 5) (of_int_d 6)) (p ! 3))
                   (fmul (fdiv (of_int_d 1) (of_int_d 6)) (p ! 2))"
    using r [rule_format, of 4] by simp
  ultimately show ?thesis by simp
qed

text \<open>
  C2. For every integer \<open>n \<ge> 1\<close>, \<^verbatim>\<open>qrec(n)\<close> returns a sequence of length \<open>n + 1\<close> whose
  element 0 is \<open>1\<close>, whose element 1 is \<open>1/3\<close>, and whose element \<open>j\<close>, for
  \<open>2 \<le> j \<le> n\<close>, is \<open>(5/3) * seq[j-1] - (4/9) * seq[j-2]\<close>.
\<close>

theorem qrec_recurrence:
  assumes "1 \<le> n"
  shows "\<exists>q. qrec n = Inr q \<and> length q = nat (n + 1) \<and>
      q ! 0 = of_int_d 1 \<and> q ! 1 = fdiv (of_int_d 1) (of_int_d 3) \<and>
      (\<forall>j. 2 \<le> j \<and> j \<le> n \<longrightarrow>
         q ! nat j = fsub (fmul (fdiv (of_int_d 5) (of_int_d 3)) (q ! nat (j - 1)))
                          (fmul (fdiv (of_int_d 4) (of_int_d 9)) (q ! nat (j - 2))))"
  using qrec_on_spec [OF assms, of binary64] by (simp add: qrec_def binary64_def)

theorem qrec_recurrence_witness:
  "(1::int) \<le> 2 \<and>
   (\<exists>q. qrec 2 = Inr q \<and> length q = 3 \<and>
      q ! 0 = of_int_d 1 \<and> q ! 1 = fdiv (of_int_d 1) (of_int_d 3) \<and>
      q ! 2 = fsub (fmul (fdiv (of_int_d 5) (of_int_d 3)) (q ! 1))
                   (fmul (fdiv (of_int_d 4) (of_int_d 9)) (q ! 0)))"
proof -
  have h: "(1::int) \<le> 2" by simp
  obtain q where "qrec 2 = Inr q" and "length q = nat (2 + 1)"
    and "q ! 0 = of_int_d 1" and "q ! 1 = fdiv (of_int_d 1) (of_int_d 3)"
    and r: "\<forall>j. 2 \<le> j \<and> j \<le> 2 \<longrightarrow>
         q ! nat j = fsub (fmul (fdiv (of_int_d 5) (of_int_d 3)) (q ! nat (j - 1)))
                          (fmul (fdiv (of_int_d 4) (of_int_d 9)) (q ! nat (j - 2)))"
    using qrec_recurrence [OF h] by blast
  moreover have "q ! 2 = fsub (fmul (fdiv (of_int_d 5) (of_int_d 3)) (q ! 1))
                   (fmul (fdiv (of_int_d 4) (of_int_d 9)) (q ! 0))"
    using r [rule_format, of 2] by simp
  ultimately show ?thesis by simp
qed

text \<open>
  C3. Over the rationals the two recursions are equivalent: with the seeds \<open>1\<close> and \<open>1/3\<close>
  both programs return exactly \<open>3^-j\<close> at every index \<open>j\<close>, for every \<open>n \<ge> 1\<close>, and their
  results are equal for every \<open>n\<close>.
\<close>

theorem recursions_exact:
  "(1 \<le> n \<longrightarrow>
      prec_exact n = Inr (map (\<lambda>j. 1 / 3 ^ j) [0..<nat (n + 1)]) \<and>
      qrec_exact n = Inr (map (\<lambda>j. 1 / 3 ^ j) [0..<nat (n + 1)])) \<and>
   prec_exact n = qrec_exact n"
  by (simp add: prec_exact_closed qrec_exact_closed exact_runs_agree)

theorem recursions_exact_witness:
  "(1::int) \<le> 3 \<and> prec_exact 3 = Inr [1, 1 / 3, 1 / 9, 1 / 27] \<and>
   qrec_exact 3 = Inr [1, 1 / 3, 1 / 9, 1 / 27] \<and> prec_exact 3 = qrec_exact 3"
  using recursions_exact [of 3] by (simp add: upt_rec)

text \<open>
  C4. For \<open>n = 0\<close> the claim is that both generators return the one-element sequence
  \<open>[1]\<close>, whose error at index 0 is exactly 0. The code does not: the array has one element
  and the write of the second seed, at index 1, raises \<^verbatim>\<open>IndexError\<close> in both generators.
  The error of the sequence \<open>[1]\<close> would be \<open>[0]\<close>, the power \<^verbatim>\<open>3.**0\<close> being 1.
\<close>

theorem generators_at_zero:
  "prec 0 = Inl IndexError \<and> qrec 0 = Inl IndexError \<and>
   np_zeros binary64 (0 + 1) = Inr [of_int_d 0] \<and>
   setitem [of_int_d 1] 1 (fdiv (of_int_d 1) (of_int_d 3)) = Inl IndexError \<and>
   (pw 0 = of_int_d 1 \<longrightarrow> frac_err pw [of_int_d 1] 0 = Inr [Finite False 0 (- 1074)])"
proof -
  have "fabs (fsub (of_int_d 1) (fdiv (of_int_d 1) (fdiv (of_int_d 1) (of_int_d 1)))) =
      Finite False 0 (- 1074)"
    by code_simp
  then have "pw 0 = of_int_d 1 \<longrightarrow> frac_err pw [of_int_d 1] 0 = Inr [Finite False 0 (- 1074)]"
    by (simp add: frac_err_def expected_def arange_def broadcast2_def)
  then show ?thesis
    by (simp add: prec_def qrec_def prec_on_zero qrec_on_zero np_zeros_def binary64_def
        setitem_def np_index_def)
qed

theorem generators_at_zero_witness:
  "of_int_d (3 ^ nat 0) = of_int_d 1 \<and>
   prec 0 = Inl IndexError \<and> qrec 0 = Inl IndexError \<and>
   frac_err (\<lambda>j. of_int_d (3 ^ nat j)) [of_int_d 1] 0 = Inr [Finite False 0 (- 1074)]"
  using generators_at_zero [of "\<lambda>j. of_int_d (3 ^ nat j)"] by simp

text \<open>
  C5. The claim is that every negative \<open>n\<close> is rejected as an invalid argument before
  anything is computed. At \<open>n = -1\<close> it is not: the empty array is allocated and the write
  of the first seed raises \<^verbatim>\<open>IndexError\<close>.
\<close>

theorem negative_n_counterexample:
  "np_zeros binary64 (- 1 + 1) = Inr [] \<and> prec (- 1) = Inl IndexError \<and>
   qrec (- 1) = Inl IndexError \<and> prec (- 1) \<noteq> Inl ValueError \<and> qrec (- 1) \<noteq> Inl ValueError"
  by (simp add: prec_def qrec_def prec_on_minus_one qrec_on_minus_one np_zeros_def)

text \<open>
  C5, as the code has it. Neither generator checks its argument. For every negative \<open>n\<close>
  both raise and return no sequence: for \<open>n \<le> -2\<close> the allocation \<^verbatim>\<open>np.zeros(n+1)\<close> raises
  \<^verbatim>\<open>ValueError\<close> before any array exists, for \<open>n = -1\<close> the allocation gives the empty
  array and the write of the first seed raises \<^verbatim>\<open>IndexError\<close>.
\<close>

theorem negative_n_raises:
  assumes "n < 0"
  shows "prec n = Inl (if n = - 1 then IndexError else ValueError) \<and>
         qrec n = Inl (if n = - 1 then IndexError else ValueError) \<and>
         np_zeros binary64 (n + 1) = (if n = - 1 then Inr [] else Inl ValueError)"
  using assms
  by (simp add: prec_def qrec_def prec_on_minus_one qrec_on_minus_one
      prec_on_below_minus_one qrec_on_below_minus_one np_zeros_def)

theorem negative_n_raises_witness:
  "(- 3 :: int) < 0 \<and> prec (- 3) = Inl ValueError \<and> qrec (- 3) = Inl ValueError \<and>
   np_zeros binary64 (- 3 + 1) = Inl ValueError"
  using negative_n_raises [of "- 3"] by simp

text \<open>
  C6. For every sequence \<open>s\<close> of length \<open>N + 1\<close> the error analysis returns a sequence of
  the same length, in the same order, whose element \<open>j\<close> is \<open>|1 - s[j] / (1 / 3.**j)|\<close>: the
  reference is the quotient of 1 by the library's power \<^verbatim>\<open>3.**j\<close> itself, whatever double
  that is, and not a value of either recursion.
\<close>

theorem frac_err_elementwise:
  assumes "int (length s) = N + 1"
  shows "\<exists>E. frac_err pw s N = Inr E \<and> length E = length s \<and>
    (\<forall>j. j < length s \<longrightarrow>
       E ! j = fabs (fsub (of_int_d 1) (fdiv (s ! j) (fdiv (of_int_d 1) (pw (int j))))))"
proof -
  let ?E = "map (\<lambda>x. fabs (fsub (of_int_d 1) x)) (map2 fdiv s (expected pw N))"
  have run: "frac_err pw s N = Inr ?E" by (rule frac_err_same_length [OF assms])
  moreover have "length ?E = length s" using assms by (simp add: expected_length)
  moreover have "\<forall>j. j < length s \<longrightarrow>
       ?E ! j = fabs (fsub (of_int_d 1) (fdiv (s ! j) (fdiv (of_int_d 1) (pw (int j)))))"
    using frac_err_nth [OF assms run] by simp
  ultimately show ?thesis by blast
qed

theorem frac_err_elementwise_witness:
  "int (length [of_int_d 1, of_int_d 2]) = 1 + 1 \<and>
   (\<exists>E. frac_err (\<lambda>j. of_int_d (3 ^ nat j)) [of_int_d 1, of_int_d 2] 1 = Inr E \<and>
      length E = 2 \<and>
      E ! 1 = fabs (fsub (of_int_d 1) (fdiv (of_int_d 2) (fdiv (of_int_d 1) (of_int_d 3)))))"
proof -
  have h: "int (length [of_int_d 1, of_int_d 2]) = 1 + 1" by simp
  obtain E where "frac_err (\<lambda>j. of_int_d (3 ^ nat j)) [of_int_d 1, of_int_d 2] 1 = Inr E"
    and "length E = length [of_int_d 1, of_int_d 2]"
    and r: "\<forall>j. j < length [of_int_d 1, of_int_d 2] \<longrightarrow>
       E ! j = fabs (fsub (of_int_d 1)
         (fdiv ([of_int_d 1, of_int_d 2] ! j) (fdiv (of_int_d 1) (of_int_d (3 ^ nat (int j))))))"
    using frac_err_elementwise [OF h, of "\<lambda>j. of_int_d (3 ^ nat j)"] by blast
  moreover have "E ! 1 = fabs (fsub (of_int_d 1) (fdiv (of_int_d 2) (fdiv (of_int_d 1) (of_int_d 3))))"
    using r [rule_format, of 1] by simp
  ultimately show ?thesis by simp
qed

text \<open>
  C7. For every \<open>n \<ge> 1\<close>, \<^verbatim>\<open>prec(n)\<close> and \<^verbatim>\<open>qrec(n)\<close> have the same elements at the indices 0
  and 1, bit for bit: the doubles \<open>1\<close> (exactly one, \<^verbatim>\<open>0x3FF0000000000000\<close>) and \<^verbatim>\<open>1./3\<close>
  (\<^verbatim>\<open>0x3FD5555555555555\<close>), which are the references \<^verbatim>\<open>1/3.**0\<close> and \<^verbatim>\<open>1/3.**1\<close> themselves,
  the powers \<^verbatim>\<open>3.**0\<close> and \<^verbatim>\<open>3.**1\<close> being 1 and 3.
\<close>

theorem seeds_identical:
  assumes "1 \<le> n"
  shows "\<exists>p q. prec n = Inr p \<and> qrec n = Inr q \<and> p ! 0 = q ! 0 \<and> p ! 1 = q ! 1 \<and>
      p ! 0 = of_int_d 1 \<and> p ! 1 = fdiv (of_int_d 1) (of_int_d 3) \<and>
      valof (p ! 0) = Some 1 \<and>
      (pw 0 = of_int_d 1 \<longrightarrow> p ! 0 = expected pw n ! 0) \<and>
      (pw 1 = of_int_d 3 \<longrightarrow> p ! 1 = expected pw n ! 1) \<and>
      bits_of (p ! 0) = 0x3FF0000000000000 \<and> bits_of (p ! 1) = 0x3FD5555555555555 \<and>
      bits_of (q ! 0) = 0x3FF0000000000000 \<and> bits_of (q ! 1) = 0x3FD5555555555555"
proof -
  obtain p where p: "prec_on binary64 n = Inr p" "p ! 0 = lit binary64 1"
    "p ! 1 = quot binary64 (lit binary64 1) (lit binary64 3)"
    using prec_on_spec [OF assms, of binary64] by blast
  obtain q where q: "qrec_on binary64 n = Inr q" "q ! 0 = lit binary64 1"
    "q ! 1 = quot binary64 (lit binary64 1) (lit binary64 3)"
    using qrec_on_spec [OF assms, of binary64] by blast
  have "p ! 0 = of_int_d 1" "q ! 0 = of_int_d 1"
    "p ! 1 = fdiv (of_int_d 1) (of_int_d 3)" "q ! 1 = fdiv (of_int_d 1) (of_int_d 3)"
    using p q by (simp_all add: binary64_def)
  moreover have "valof (of_int_d 1) = Some 1"
    and "bits_of (of_int_d 1) = 0x3FF0000000000000"
    by (simp_all only: one_d seed_bits seed_values)
  moreover have "bits_of (fdiv (of_int_d 1) (of_int_d 3)) = 0x3FD5555555555555"
    by (simp only: third_d seed_bits)
  ultimately show ?thesis
    using p(1) q(1) expected_seeds [OF assms, of pw] by (simp add: prec_def qrec_def)
qed

theorem seeds_identical_witness:
  "(1::int) \<le> 1 \<and> of_int_d (3 ^ nat 0) = of_int_d 1 \<and> of_int_d (3 ^ nat 1) = of_int_d 3 \<and>
   (\<exists>p q. prec 1 = Inr p \<and> qrec 1 = Inr q \<and> p ! 0 = q ! 0 \<and> p ! 1 = q ! 1 \<and>
      p ! 0 = expected (\<lambda>j. of_int_d (3 ^ nat j)) 1 ! 0 \<and>
      p ! 1 = expected (\<lambda>j. of_int_d (3 ^ nat j)) 1 ! 1 \<and>
      bits_of (p ! 1) = 0x3FD5555555555555)"
proof -
  have h: "(1::int) \<le> 1" by simp
  obtain p q where "prec 1 = Inr p" and "qrec 1 = Inr q" and "p ! 0 = q ! 0" and "p ! 1 = q ! 1"
    and r0: "(\<lambda>j. of_int_d (3 ^ nat j)) 0 = of_int_d 1 \<longrightarrow>
      p ! 0 = expected (\<lambda>j. of_int_d (3 ^ nat j)) 1 ! 0"
    and r1: "(\<lambda>j. of_int_d (3 ^ nat j)) 1 = of_int_d 3 \<longrightarrow>
      p ! 1 = expected (\<lambda>j. of_int_d (3 ^ nat j)) 1 ! 1"
    and "bits_of (p ! 1) = 0x3FD5555555555555"
    using seeds_identical [OF h, of "\<lambda>j. of_int_d (3 ^ nat j)"] by blast
  moreover have "p ! 0 = expected (\<lambda>j. of_int_d (3 ^ nat j)) 1 ! 0"
    using r0 by simp
  moreover have "p ! 1 = expected (\<lambda>j. of_int_d (3 ^ nat j)) 1 ! 1"
    using r1 by simp
  ultimately show ?thesis by auto
qed

text \<open>
  C8. The power \<open>3^N\<close> on 64-bit signed integers, wrapping modulo \<open>2^64\<close>, is negative for
  some \<open>N\<close> with \<open>20 < N \<le> 40\<close>: at \<open>N = 40\<close> it is \<open>-6289078614652622815\<close> (up to
  \<open>N = 39\<close> it is the true power). The reference \<open>1/3^N\<close> derived from it is negative, and
  the fractional error of \<^verbatim>\<open>prec(40)\<close> at index 40 against it is above 1.
\<close>

theorem int64_power_wraps:
  "sint (int64_pow3 40) = - 6289078614652622815 \<and>
   (\<exists>N. 20 < N \<and> N \<le> 40 \<and> sint (int64_pow3 N) < 0) \<and>
   list_all (\<lambda>j. sint (int64_pow3 j) = 3 ^ nat j) [0..39] \<and>
   expected_int64 40 ! 40 = fdiv (of_int_d 1) (of_int_d (sint (int64_pow3 40))) \<and>
   expected_int64 40 ! 40 = Finite True 6604842682599062 (- 115) \<and>
   (\<exists>p x. prec 40 = Inr p \<and>
      valof (fabs (fsub (of_int_d 1) (fdiv (p ! 40) (expected_int64 40 ! 40)))) = Some x \<and>
      1 < x)"
proof -
  have wrap: "sint (int64_pow3 40) = - 6289078614652622815"
    by (rule int64_pow3_40)
  then have "(20::int) < 40 \<and> (40::int) \<le> 40 \<and> sint (int64_pow3 40) < 0"
    by simp
  then have some: "\<exists>N. 20 < N \<and> N \<le> 40 \<and> sint (int64_pow3 N) < 0"
    by blast
  have ref: "expected_int64 40 ! 40 = fdiv (of_int_d 1) (of_int_d (sint (int64_pow3 40)))"
    using expected_int64_nth [of 40 40] by simp
  have neg: "expected_int64 40 ! 40 = Finite True 6604842682599062 (- 115)"
    by (simp only: ref wrap reference_int64_40)
  obtain p where p: "prec 40 = Inr p" "p ! 40 = Finite False 6833281496482506 (- 116)"
    using prec_40 by blast
  have "fabs (fsub (of_int_d 1) (fdiv (p ! 40) (expected_int64 40 ! 40))) =
      Finite False 6833281459335519 (- 52)"
    by (simp only: p(2) neg err_int64_40)
  then have "valof (fabs (fsub (of_int_d 1) (fdiv (p ! 40) (expected_int64 40 ! 40)))) =
      Some (6833281459335519 / 2 ^ 52)"
    by (simp add: apply_sign_def)
  moreover have "(1::rat) < 6833281459335519 / 2 ^ 52" by simp
  ultimately have "\<exists>p x. prec 40 = Inr p \<and>
      valof (fabs (fsub (of_int_d 1) (fdiv (p ! 40) (expected_int64 40 ! 40)))) = Some x \<and>
      1 < x"
    using p(1) by blast
  then show ?thesis
    using wrap some int64_pow3_below_40 ref neg by blast
qed

text \<open>
  C9. For \<open>N = 40\<close> the fractional error of the q recursion at index 40 exceeds 1, and that
  of the p recursion is below \<open>10^-7\<close>. The power \<^verbatim>\<open>3.**40\<close> is the double the notebook
  prints for it, \<^verbatim>\<open>1.2157665459056929e+19\<close>.
\<close>

theorem errors_at_40:
  assumes "pw 40 = Finite False 5936360087430141 11"
  shows "\<exists>ep eq x y. perr pw 40 = Inr ep \<and> qerr pw 40 = Inr eq \<and>
     valof (ep ! 40) = Some x \<and> valof (eq ! 40) = Some y \<and> x < 1 / 10 ^ 7 \<and> 1 < y"
proof -
  obtain ep where ep: "perr pw 40 = Inr ep" "ep ! 40 = Finite False 4985784197185536 (- 79)"
    using perr_40 [of pw, OF assms] by blast
  obtain eq where eq: "qerr pw 40 = Inr eq" "eq ! 40 = Finite False 4535360827789107 (- 26)"
    using qerr_40 [of pw, OF assms] by blast
  have "valof (ep ! 40) = Some (4985784197185536 / 2 ^ 79)"
    and "valof (eq ! 40) = Some (4535360827789107 / 2 ^ 26)"
    using ep(2) eq(2) err_values by simp_all
  moreover have "(4985784197185536 / 2 ^ 79 :: rat) < 1 / 10 ^ 7"
    and "(1 :: rat) < 4535360827789107 / 2 ^ 26"
    by simp_all
  ultimately show ?thesis using ep(1) eq(1) by blast
qed

theorem errors_at_40_witness:
  "of_int_d (3 ^ nat 40) = Finite False 5936360087430141 11 \<and>
   (\<exists>ep eq x y. perr (\<lambda>j. of_int_d (3 ^ nat j)) 40 = Inr ep \<and>
      qerr (\<lambda>j. of_int_d (3 ^ nat j)) 40 = Inr eq \<and>
      valof (ep ! 40) = Some x \<and> valof (eq ! 40) = Some y \<and> x < 1 / 10 ^ 7 \<and> 1 < y)"
proof -
  have h: "(\<lambda>j. of_int_d (3 ^ nat j)) 40 = Finite False 5936360087430141 11"
    using power_40(1) by simp
  then show ?thesis
    using errors_at_40 [of "\<lambda>j. of_int_d (3 ^ nat j)", OF h] by simp
qed

text \<open>
  C10. In both generators every array write is in bounds exactly under \<open>n \<ge> 1\<close>: the array
  has length \<open>n + 1\<close>, the seeds are written at 0 and 1 and the loop writes at \<open>2 \<le> j \<le> n\<close>.
  So a generator returns an array exactly when \<open>n \<ge> 1\<close>; once the array is allocated
  (\<open>n \<ge> -1\<close>) it ends in \<^verbatim>\<open>IndexError\<close> exactly when \<open>n < 1\<close>, and for \<open>n = 0\<close> it is the
  write at index 1 of the one-element array that fails.
\<close>

theorem writes_in_bounds_iff:
  "((\<exists>p. prec n = Inr p) \<longleftrightarrow> 1 \<le> n) \<and> ((\<exists>q. qrec n = Inr q) \<longleftrightarrow> 1 \<le> n) \<and>
   (- 1 \<le> n \<longrightarrow>
      np_zeros binary64 (n + 1) = Inr (replicate (nat (n + 1)) (of_int_d 0)) \<and>
      (prec n = Inl IndexError \<longleftrightarrow> n < 1) \<and> (qrec n = Inl IndexError \<longleftrightarrow> n < 1)) \<and>
   set (range_py 2 (n + 1)) = {j. 2 \<le> j \<and> j \<le> n} \<and>
   setitem (replicate (nat (0 + 1)) (of_int_d 0)) 1 (fdiv (of_int_d 1) (of_int_d 3)) =
     Inl IndexError"
proof -
  have "((\<exists>p. prec n = Inr p) \<longleftrightarrow> 1 \<le> n) \<and> ((\<exists>q. qrec n = Inr q) \<longleftrightarrow> 1 \<le> n) \<and>
   (- 1 \<le> n \<longrightarrow>
      np_zeros binary64 (n + 1) = Inr (replicate (nat (n + 1)) (of_int_d 0)) \<and>
      (prec n = Inl IndexError \<longleftrightarrow> n < 1) \<and> (qrec n = Inl IndexError \<longleftrightarrow> n < 1))"
    using prec_on_result [of binary64 n] qrec_on_result [of binary64 n]
    by (auto simp: prec_def qrec_def np_zeros_def binary64_def)
  moreover have "set (range_py 2 (n + 1)) = {j. 2 \<le> j \<and> j \<le> n}"
    by (auto simp: range_py_def)
  moreover have "setitem (replicate (nat (0 + 1)) (of_int_d 0)) 1
      (fdiv (of_int_d 1) (of_int_d 3)) = Inl IndexError"
    by (simp add: setitem_def np_index_def)
  ultimately show ?thesis by blast
qed

theorem writes_in_bounds_iff_witness:
  "(- 1 :: int) \<le> 0 \<and> (- 1 :: int) \<le> 1 \<and>
   np_zeros binary64 (0 + 1) = Inr (replicate (nat (0 + 1)) (of_int_d 0)) \<and>
   prec 0 = Inl IndexError \<and> qrec 0 = Inl IndexError \<and>
   (\<exists>p. prec 1 = Inr p) \<and> (\<exists>q. qrec 1 = Inr q) \<and>
   prec 1 \<noteq> Inl IndexError \<and> qrec 1 \<noteq> Inl IndexError"
  using writes_in_bounds_iff [of 0] writes_in_bounds_iff [of 1] by simp

end
